theory Spec2Isabelle
  imports Complex_Main "HOL-Library.AList"
begin

section \<open>Python values: errors, indexing, strings\<close>

text \<open>
  The only exception the engine can raise is Python's IndexError (a list index out of
  range, or \<^verbatim>\<open>pop\<close> on an empty list). A function that can raise returns
  \<open>py_error + 'a\<close>, with \<open>Inl\<close> for the exception. The game object as it is at the
  moment of the raise is not returned: nothing in the repository catches the exception.
\<close>

datatype py_error = IndexError

definition bindE :: "'e + 'a \<Rightarrow> ('a \<Rightarrow> 'e + 'b) \<Rightarrow> 'e + 'b" where
  "bindE m f = (case m of Inl e \<Rightarrow> Inl e | Inr x \<Rightarrow> f x)"

text \<open>
  Python list indexing \<^verbatim>\<open>xs[i]\<close>: an index from \<open>- len\<close> up to \<open>-1\<close> counts from
  the end, anything outside \<open>- len .. len - 1\<close> raises. \<open>py_index\<close> gives the position
  that is read or written.
\<close>

definition py_index :: "'a list \<Rightarrow> int \<Rightarrow> py_error + nat" where
  "py_index xs i =
     (let n = int (length xs)
      in if 0 \<le> i \<and> i < n then Inr (nat i)
         else if - n \<le> i \<and> i < 0 then Inr (nat (n + i))
         else Inl IndexError)"

text \<open>\<^verbatim>\<open>str(n)\<close> for an integer, and \<^verbatim>\<open>sep.join(xs)\<close>.\<close>

definition digit :: "nat \<Rightarrow> char" where
  "digit d = char_of (48 + d)"

fun str_nat :: "nat \<Rightarrow> string" where
  "str_nat n = (if n < 10 then [digit n] else str_nat (n div 10) @ [digit (n mod 10)])"

definition str_int :: "int \<Rightarrow> string" where
  "str_int i = (if i < 0 then ''-'' @ str_nat (nat (- i)) else str_nat (nat i))"

fun join :: "string \<Rightarrow> string list \<Rightarrow> string" where
  "join sep [] = []"
| "join sep [x] = x"
| "join sep (x # y # ys) = x @ sep @ join sep (y # ys)"

section \<open>Pieces (pieces.py)\<close>

text \<open>
  Modelled from the spec: \<^verbatim>\<open>config.py\<close> is not among the sources; the spec's board
  is 8 by 8, and the promotion row 7 and the square numbering of the engine agree with it.
\<close>

definition BOARD_DIMENSION :: int where
  "BOARD_DIMENSION = 8"

type_synonym coords = "int \<times> int"

text \<open>
  The classes \<^verbatim>\<open>Man\<close> and \<^verbatim>\<open>King\<close>, each holding \<^verbatim>\<open>is_player1\<close>; the
  attributes \<^verbatim>\<open>name\<close> and \<^verbatim>\<open>color\<close> are set from the class and the flag by the
  constructors.
\<close>

datatype piece = Man bool | King bool

fun is_player1 :: "piece \<Rightarrow> bool" where
  "is_player1 (Man p) = p"
| "is_player1 (King p) = p"

fun name :: "piece \<Rightarrow> string" where
  "name (Man p) = ''M''"
| "name (King p) = ''K''"

definition color :: "piece \<Rightarrow> string" where
  "color p = (if is_player1 p then ''red'' else ''black'')"

type_synonym board = "piece option list list"

definition in_bounds :: "int \<Rightarrow> int \<Rightarrow> bool" where
  "in_bounds r c \<longleftrightarrow> 0 \<le> r \<and> r < BOARD_DIMENSION \<and> 0 \<le> c \<and> c < BOARD_DIMENSION"

text \<open>
  \<^verbatim>\<open>board[r][c]\<close> and \<^verbatim>\<open>board[r][c] = v\<close> at a coordinate that the code has
  checked against, or taken from, \<^verbatim>\<open>range(BOARD_DIMENSION)\<close>. The board is built
  8 by 8 by the constructor and only ever changed cell by cell (\<open>wf_board\<close> below), so
  these accesses neither wrap nor raise.
\<close>

definition cell :: "board \<Rightarrow> int \<Rightarrow> int \<Rightarrow> piece option" where
  "cell b r c = b ! nat r ! nat c"

definition put_cell :: "board \<Rightarrow> int \<Rightarrow> int \<Rightarrow> piece option \<Rightarrow> board" where
  "put_cell b r c v = b[nat r := (b ! nat r)[nat c := v]]"

definition is_enemy :: "piece \<Rightarrow> piece option \<Rightarrow> bool" where
  "is_enemy p other = (case other of None \<Rightarrow> False | Some q \<Rightarrow> is_player1 q \<noteq> is_player1 p)"

text \<open>One round of the loop of \<^verbatim>\<open>_get_diagonal_moves\<close>: the moves one direction adds.\<close>

definition diagonal_step :: "piece \<Rightarrow> board \<Rightarrow> coords \<Rightarrow> int \<times> int \<Rightarrow> coords list" where
  "diagonal_step p b start d =
     (let new_row = fst start + fst d; new_col = snd start + snd d
      in if in_bounds new_row new_col then
           (case cell b new_row new_col of
              None \<Rightarrow> [(new_row, new_col)]
            | Some target \<Rightarrow>
                if is_enemy p (Some target) then
                  (let jump_row = new_row + fst d; jump_col = new_col + snd d
                   in if in_bounds jump_row jump_col \<and> cell b jump_row jump_col = None
                      then [(jump_row, jump_col)] else [])
                else [])
         else [])"

fun get_diagonal_moves :: "piece \<Rightarrow> board \<Rightarrow> coords \<Rightarrow> (int \<times> int) list \<Rightarrow> coords list" where
  "get_diagonal_moves p b start [] = []"
| "get_diagonal_moves p b start (d # ds) =
     diagonal_step p b start d @ get_diagonal_moves p b start ds"

fun directions :: "piece \<Rightarrow> (int \<times> int) list" where
  "directions (Man p1) = (if p1 then [(-1, -1), (-1, 1)] else [(1, -1), (1, 1)])"
| "directions (King p1) = [(1, 1), (1, -1), (-1, 1), (-1, -1)]"

text \<open>\<^verbatim>\<open>get_moves\<close>; its third argument, the move history, is never read.\<close>

definition get_moves :: "piece \<Rightarrow> board \<Rightarrow> coords \<Rightarrow> coords list" where
  "get_moves p b start = get_diagonal_moves p b start (directions p)"

section \<open>The engine (engine.py)\<close>

record player =
  player_name :: string
  player_is_player1 :: bool
  player_color :: string

definition Player :: "string \<Rightarrow> bool \<Rightarrow> player" where
  "Player n p1 =
     \<lparr>player_name = n, player_is_player1 = p1,
      player_color = (if p1 then ''red'' else ''black'')\<rparr>"

text \<open>
  Times are Python floats (readings of \<^verbatim>\<open>time.time()\<close>, their differences and
  sums); the model takes them as real numbers and each reading of the clock as an
  argument of the operation that reads it. The readings of a clock set between 2004 and
  2038 are multiples of \<open>2\<^sup>-\<^sup>2\<^sup>2\<close> below \<open>2\<^sup>3\<^sup>1\<close>, and so are their differences
  and the sums of the turn durations; on these the additions and subtractions of floats
  are exact, as they are on reals.
\<close>

record move =
  piece_moved :: piece
  start_coords :: coords
  end_coords :: coords
  piece_captured :: "piece option"
  is_promotion :: bool
  promoted_piece :: "piece option"
  turn_duration :: real
  captured_coords :: coords

definition Move ::
  "piece \<Rightarrow> coords \<Rightarrow> coords \<Rightarrow> piece option \<Rightarrow> bool \<Rightarrow> piece option \<Rightarrow> real \<Rightarrow> coords option
   \<Rightarrow> move" where
  "Move pm sc ec pc ip pp td cc =
     \<lparr>piece_moved = pm, start_coords = sc, end_coords = ec, piece_captured = pc,
      is_promotion = ip, promoted_piece = pp, turn_duration = td,
      captured_coords = (case cc of None \<Rightarrow> ec | Some c \<Rightarrow> c)\<rparr>"

definition is_jump :: "move \<Rightarrow> bool" where
  "is_jump m \<longleftrightarrow> \<bar>fst (start_coords m) - fst (end_coords m)\<bar> = 2"

text \<open>
  The dictionary \<^verbatim>\<open>position_history\<close> is an association list with one entry per
  key (\<open>AList.update\<close> keeps it so); \<open>dict_get\<close> is \<^verbatim>\<open>d.get(k, default)\<close>.
\<close>

record game =
  board :: board
  current_player_index :: int
  game_state :: string
  move_history :: "move list"
  red_captured :: "piece list"
  black_captured :: "piece list"
  turn_start_time :: real
  red_turn_time :: real
  black_turn_time :: real
  position_history :: "(string \<times> int) list"

definition dict_get :: "('k \<times> 'v) list \<Rightarrow> 'k \<Rightarrow> 'v \<Rightarrow> 'v" where
  "dict_get d k dflt = (case map_of d k of None \<Rightarrow> dflt | Some v \<Rightarrow> v)"

definition players :: "player list" where
  "players = [Player ''Red'' True, Player ''Black'' False]"

text \<open>
  \<^verbatim>\<open>players[current_player_index]\<close>: the index is 0 at the start and only ever
  replaced by \<open>1 - index\<close>, so it is 0 or 1 (\<open>wf_game\<close> below).
\<close>

definition get_current_player :: "game \<Rightarrow> player" where
  "get_current_player g = players ! nat (current_player_index g)"

definition get_piece_at :: "game \<Rightarrow> coords \<Rightarrow> py_error + piece option" where
  "get_piece_at g coords =
     bindE (py_index (board g) (fst coords)) (\<lambda>i.
     bindE (py_index (board g ! i) (snd coords)) (\<lambda>j.
     Inr (board g ! i ! j)))"

definition set_piece_at :: "game \<Rightarrow> coords \<Rightarrow> piece option \<Rightarrow> py_error + game" where
  "set_piece_at g coords v =
     bindE (py_index (board g) (fst coords)) (\<lambda>i.
     bindE (py_index (board g ! i) (snd coords)) (\<lambda>j.
     Inr (g\<lparr>board := (board g)[i := (board g ! i)[j := v]]\<rparr>)))"

text \<open>\<^verbatim>\<open>_iterate_squares\<close>: all squares, row by row.\<close>

definition iterate_squares :: "coords list" where
  "iterate_squares =
     concat (map (\<lambda>r. map (\<lambda>c. (r, c)) [0 .. BOARD_DIMENSION - 1]) [0 .. BOARD_DIMENSION - 1])"

text \<open>
  \<^verbatim>\<open>_get_all_jumps_for_player\<close>: the loop over the squares, each square of the
  player adding its destinations two rows away.
\<close>

fun all_jumps_loop :: "board \<Rightarrow> bool \<Rightarrow> coords list \<Rightarrow> (coords \<times> coords) list" where
  "all_jumps_loop b p1 [] = []"
| "all_jumps_loop b p1 (sq # sqs) =
     (case cell b (fst sq) (snd sq) of
        None \<Rightarrow> []
      | Some piece \<Rightarrow>
          if is_player1 piece = p1
          then map (\<lambda>move_coords. (sq, move_coords))
                 (filter (\<lambda>move_coords. \<bar>fst sq - fst move_coords\<bar> = 2) (get_moves piece b sq))
          else [])
     @ all_jumps_loop b p1 sqs"

definition get_all_jumps_for_player :: "game \<Rightarrow> player \<Rightarrow> (coords \<times> coords) list" where
  "get_all_jumps_for_player g pl = all_jumps_loop (board g) (player_is_player1 pl) iterate_squares"

text \<open>
  \<^verbatim>\<open>get_legal_moves_for_piece\<close>: \<open>legal_moves_at\<close> is its body after the square has
  been read, which is also what the status loop runs at the squares it visits.
\<close>

definition legal_moves_at :: "game \<Rightarrow> piece option \<Rightarrow> coords \<Rightarrow> coords list" where
  "legal_moves_at g piece coords =
     (case piece of
        None \<Rightarrow> []
      | Some p \<Rightarrow>
          if is_player1 p \<noteq> player_is_player1 (get_current_player g) then []
          else (let all_jumps = get_all_jumps_for_player g (get_current_player g)
                in if all_jumps \<noteq> []
                   then map snd (filter (\<lambda>m. fst m = coords) all_jumps)
                   else get_moves p (board g) coords))"

definition get_legal_moves_for_piece :: "game \<Rightarrow> coords \<Rightarrow> py_error + coords list" where
  "get_legal_moves_for_piece g coords =
     bindE (get_piece_at g coords) (\<lambda>piece. Inr (legal_moves_at g piece coords))"

text \<open>\<^verbatim>\<open>_get_position_hash\<close> and \<^verbatim>\<open>_update_position_history\<close>.\<close>

definition square_str :: "piece option \<Rightarrow> string" where
  "square_str sq = (case sq of None \<Rightarrow> '' '' | Some p \<Rightarrow> name p @ [hd (color p)])"

definition get_position_hash :: "game \<Rightarrow> string" where
  "get_position_hash g =
     concat (map square_str (concat (board g))) @ str_int (current_player_index g)"

definition update_position_history :: "game \<Rightarrow> game" where
  "update_position_history g =
     (let pos_hash = get_position_hash g
      in g\<lparr>position_history :=
             AList.update pos_hash (dict_get (position_history g) pos_hash 0 + 1)
               (position_history g)\<rparr>)"

text \<open>\<^verbatim>\<open>_update_game_status\<close>, with one loop over the squares for each of its two searches.\<close>

fun count_opponent_pieces :: "board \<Rightarrow> bool \<Rightarrow> coords list \<Rightarrow> int \<Rightarrow> int" where
  "count_opponent_pieces b p1 [] n = n"
| "count_opponent_pieces b p1 (sq # sqs) n =
     count_opponent_pieces b p1 sqs
       (case cell b (fst sq) (snd sq) of
          None \<Rightarrow> n
        | Some piece \<Rightarrow> if is_player1 piece \<noteq> p1 then n + 1 else n)"

fun has_legal_move_loop :: "game \<Rightarrow> bool \<Rightarrow> coords list \<Rightarrow> bool" where
  "has_legal_move_loop g p1 [] = False"
| "has_legal_move_loop g p1 (sq # sqs) =
     (case cell (board g) (fst sq) (snd sq) of
        None \<Rightarrow> has_legal_move_loop g p1 sqs
      | Some piece \<Rightarrow>
          if is_player1 piece = p1 \<and> legal_moves_at g (Some piece) sq \<noteq> [] then True
          else has_legal_move_loop g p1 sqs)"

definition update_game_status :: "game \<Rightarrow> game" where
  "update_game_status g =
     (if dict_get (position_history g) (get_position_hash g) 0 \<ge> 3
      then g\<lparr>game_state := ''draw by threefold repetition''\<rparr>
      else
        (let pl = get_current_player g;
             opponent_pieces = count_opponent_pieces (board g) (player_is_player1 pl) iterate_squares 0
         in if opponent_pieces = 0
            then g\<lparr>game_state :=
                     (if player_is_player1 pl then ''Red'' else ''Black'')
                       @ '' wins - All opponent pieces captured''\<rparr>
            else if \<not> has_legal_move_loop g (player_is_player1 pl) iterate_squares
            then g\<lparr>game_state :=
                     (if player_is_player1 pl then ''Black'' else ''Red'') @ '' wins - no legal moves''\<rparr>
            else g\<lparr>game_state := ''active''\<rparr>))"

text \<open>
  \<^verbatim>\<open>_execute_board_move\<close>. \<open>piece\<close> is what its first line reads at the start
  square: \<^verbatim>\<open>make_move\<close>, the only caller, has just read the same square and found
  this piece there.
\<close>

definition execute_board_move ::
  "game \<Rightarrow> piece \<Rightarrow> coords \<Rightarrow> coords \<Rightarrow> real \<Rightarrow> py_error + (move \<times> game)" where
  "execute_board_move g piece start end elapsed_time =
     bindE
       (if \<bar>fst start - fst end\<bar> = 2 then
          (let cc = ((fst start + fst end) div 2, (snd start + snd end) div 2)
           in bindE (get_piece_at g cc) (\<lambda>captured_piece.
              bindE (set_piece_at g cc None) (\<lambda>g1.
              Inr (captured_piece, Some cc, g1))))
        else Inr (None, None, g))
       (\<lambda>(captured_piece, cc, g1).
          let g2 = (case captured_piece of
                      None \<Rightarrow> g1
                    | Some cp \<Rightarrow>
                        if is_player1 piece
                        then g1\<lparr>black_captured := black_captured g1 @ [cp]\<rparr>
                        else g1\<lparr>red_captured := red_captured g1 @ [cp]\<rparr>);
              promo = (case piece of
                         Man p1 \<Rightarrow> (p1 \<and> fst end = 0) \<or> (\<not> p1 \<and> fst end = 7)
                       | King p1 \<Rightarrow> False);
              promoted = (if promo then Some (King (is_player1 piece)) else None)
          in bindE (set_piece_at g2 end (if promo then promoted else Some piece)) (\<lambda>g3.
             bindE (set_piece_at g3 start None) (\<lambda>g4.
             Inr (Move piece start end captured_piece promo promoted elapsed_time cc, g4))))"

text \<open>\<^verbatim>\<open>_update_game_after_move\<close>; \<open>now\<close> is its reading of the clock.\<close>

definition update_game_after_move :: "real \<Rightarrow> game \<Rightarrow> move \<Rightarrow> game" where
  "update_game_after_move now g m =
     (let g1 = g\<lparr>move_history := move_history g @ [m]\<rparr>;
          g2 = (if current_player_index g1 = 0
                then g1\<lparr>red_turn_time := red_turn_time g1 + turn_duration m\<rparr>
                else g1\<lparr>black_turn_time := black_turn_time g1 + turn_duration m\<rparr>);
          g3 = g2\<lparr>turn_start_time := now\<rparr>;
          g4 = g3\<lparr>current_player_index := 1 - current_player_index g3\<rparr>
      in update_game_status (update_position_history g4))"

text \<open>
  \<^verbatim>\<open>make_move\<close>; \<open>now1\<close> and \<open>now2\<close> are the two readings of the clock, the first
  for the elapsed time and the second for the new start of the turn.
\<close>

definition make_move :: "real \<Rightarrow> real \<Rightarrow> game \<Rightarrow> coords \<Rightarrow> coords \<Rightarrow> py_error + (bool \<times> game)" where
  "make_move now1 now2 g start end =
     bindE (get_piece_at g start) (\<lambda>piece_to_move.
       case piece_to_move of
         None \<Rightarrow> Inr (False, g)
       | Some piece \<Rightarrow>
           if is_player1 piece \<noteq> player_is_player1 (get_current_player g) then Inr (False, g)
           else (let elapsed_time = now1 - turn_start_time g
                 in bindE (execute_board_move g piece start end elapsed_time) (\<lambda>(move_details, g1).
                    Inr (True, update_game_after_move now2 g1 move_details))))"

text \<open>
  \<^verbatim>\<open>undo_last_move\<close>; \<open>now\<close> is its reading of the clock. \<^verbatim>\<open>pop()\<close> on an
  empty captured list raises.
\<close>

definition pop_captured :: "game \<Rightarrow> bool \<Rightarrow> py_error + game" where
  "pop_captured g mover_is_player1 =
     (if mover_is_player1
      then (if black_captured g = [] then Inl IndexError
            else Inr (g\<lparr>black_captured := butlast (black_captured g)\<rparr>))
      else (if red_captured g = [] then Inl IndexError
            else Inr (g\<lparr>red_captured := butlast (red_captured g)\<rparr>)))"

text \<open>
  The three parts of \<^verbatim>\<open>undo_last_move\<close> after the move has been popped: the
  piece goes back to its start square (as a fresh man when the move promoted) and the end
  square is cleared; a captured piece goes back to the halfway square when the move was a
  jump, and is popped from the list that received it; the mover's time, the turn and the
  start of the turn are reset and the status is recomputed.
\<close>

definition undo_restore_piece :: "game \<Rightarrow> move \<Rightarrow> py_error + game" where
  "undo_restore_piece g m =
     bindE (set_piece_at g (start_coords m) (Some (piece_moved m))) (\<lambda>g1.
       if is_promotion m
       then bindE (set_piece_at g1 (start_coords m) (Some (Man (is_player1 (piece_moved m))))) (\<lambda>g2.
            set_piece_at g2 (end_coords m) None)
       else set_piece_at g1 (end_coords m) None)"

definition undo_restore_captured :: "game \<Rightarrow> move \<Rightarrow> py_error + game" where
  "undo_restore_captured g m =
     (case piece_captured m of
        None \<Rightarrow> Inr g
      | Some cp \<Rightarrow>
          bindE (if is_jump m
                 then set_piece_at g
                        ((fst (start_coords m) + fst (end_coords m)) div 2,
                         (snd (start_coords m) + snd (end_coords m)) div 2)
                        (Some cp)
                 else Inr g) (\<lambda>g1.
          pop_captured g1 (is_player1 (piece_moved m))))"

definition undo_bookkeeping :: "real \<Rightarrow> game \<Rightarrow> move \<Rightarrow> game" where
  "undo_bookkeeping now g m =
     (let g1 = (if is_player1 (piece_moved m)
                then g\<lparr>red_turn_time := red_turn_time g - turn_duration m\<rparr>
                else g\<lparr>black_turn_time := black_turn_time g - turn_duration m\<rparr>);
          g2 = g1\<lparr>current_player_index := 1 - current_player_index g1\<rparr>;
          g3 = g2\<lparr>turn_start_time := now\<rparr>
      in update_game_status g3)"

definition undo_last_move :: "real \<Rightarrow> game \<Rightarrow> py_error + game" where
  "undo_last_move now g =
     (if move_history g = [] then Inr g
      else
        (let m = last (move_history g);
             g0 = g\<lparr>move_history := butlast (move_history g)\<rparr>
         in bindE (undo_restore_piece g0 m) (\<lambda>g1.
            bindE (undo_restore_captured g1 m) (\<lambda>g2.
            Inr (undo_bookkeeping now g2 m)))))"

text \<open>\<^verbatim>\<open>_place_pieces\<close> and the constructor; \<open>now\<close> is the constructor's reading of the clock.\<close>

definition place_row :: "piece \<Rightarrow> int \<Rightarrow> board \<Rightarrow> board" where
  "place_row p row b =
     fold (\<lambda>col b'. if (row + col) mod 2 = 1 then put_cell b' row col (Some p) else b')
       [0 .. BOARD_DIMENSION - 1] b"

definition place_pieces :: "board \<Rightarrow> board" where
  "place_pieces b = fold (place_row (Man True)) [5 .. 7] (fold (place_row (Man False)) [0 .. 2] b)"

definition empty_board :: board where
  "empty_board = replicate (nat BOARD_DIMENSION) (replicate (nat BOARD_DIMENSION) None)"

definition new_game :: "real \<Rightarrow> game" where
  "new_game now =
     update_position_history
       \<lparr>board = place_pieces empty_board, current_player_index = 0, game_state = ''active'',
        move_history = [], red_captured = [], black_captured = [], turn_start_time = now,
        red_turn_time = 0, black_turn_time = 0, position_history = []\<rparr>"

text \<open>\<^verbatim>\<open>to_pdn\<close>: the loop over the squares fills the two lists of piece strings.\<close>

definition square_num :: "int \<Rightarrow> int \<Rightarrow> int" where
  "square_num r c = r * 4 + c div 2 + 1"

definition piece_str :: "piece \<Rightarrow> int \<Rightarrow> string" where
  "piece_str p n = (case p of King p1 \<Rightarrow> ''K'' @ str_int n | Man p1 \<Rightarrow> str_int n)"

fun to_pdn_loop :: "board \<Rightarrow> coords list \<Rightarrow> string list \<times> string list \<Rightarrow> string list \<times> string list" where
  "to_pdn_loop b [] acc = acc"
| "to_pdn_loop b (sq # sqs) acc =
     to_pdn_loop b sqs
       (if (fst sq + snd sq) mod 2 = 1 then
          (case cell b (fst sq) (snd sq) of
             None \<Rightarrow> acc
           | Some p \<Rightarrow>
               if is_player1 p
               then (fst acc @ [piece_str p (square_num (fst sq) (snd sq))], snd acc)
               else (fst acc, snd acc @ [piece_str p (square_num (fst sq) (snd sq))]))
        else acc)"

definition to_pdn :: "game \<Rightarrow> string" where
  "to_pdn g =
     (let turn = (if player_is_player1 (get_current_player g) then ''R'' else ''B'');
          ps = to_pdn_loop (board g) iterate_squares ([], [])
      in ''['' @ turn @ '':'' @ join '','' (fst ps) @ '':'' @ join '','' (snd ps) @ '']'')"

section \<open>The front end's square numbering (gui.py)\<close>

definition square_to_coords :: "int \<Rightarrow> coords" where
  "square_to_coords square =
     (let row = (square - 1) div 4;
          col = ((square - 1) mod 4) * 2 + (1 - row mod 2)
      in (row, col))"

section \<open>Well-formed states\<close>

definition wf_board :: "board \<Rightarrow> bool" where
  "wf_board b \<longleftrightarrow> length b = 8 \<and> list_all (\<lambda>row. length row = 8) b"

definition wf_game :: "game \<Rightarrow> bool" where
  "wf_game g \<longleftrightarrow> wf_board (board g) \<and> (current_player_index g = 0 \<or> current_player_index g = 1)"

text \<open>Every piece stands on a square whose row and column have an odd sum.\<close>

definition odd_squares :: "board \<Rightarrow> bool" where
  "odd_squares b \<longleftrightarrow> (\<forall>r c. in_bounds r c \<and> cell b r c \<noteq> None \<longrightarrow> (r + c) mod 2 = 1)"

section \<open>Reachable states\<close>

text \<open>
  The states of a game: the state the constructor builds, and from a state of a game the
  state that \<open>make_move\<close> returns for a start square and an end that
  \<open>get_legal_moves_for_piece\<close> lists for it (the check that the front end makes before
  it calls \<open>make_move\<close>), and the state that \<open>undo_last_move\<close> returns. A call that
  raises does not continue the game.
\<close>

inductive reachable :: "game \<Rightarrow> bool" where
  init: "reachable (new_game now)"
| move: "reachable g \<Longrightarrow> get_legal_moves_for_piece g start = Inr moves \<Longrightarrow> end \<in> set moves
         \<Longrightarrow> make_move now1 now2 g start end = Inr (ok, g') \<Longrightarrow> reachable g'"
| undo: "reachable g \<Longrightarrow> undo_last_move now g = Inr g' \<Longrightarrow> reachable g'"

section \<open>Example positions\<close>

text \<open>
  The opening position with the black man of (2, 1) standing on (4, 1) instead, where the
  red men on (5, 0) and (5, 2) can each jump it; and a board with one red man on (2, 3)
  and one black man on (1, 2), where the red man jumps to row 0.
\<close>

definition capture_position :: game where
  "capture_position =
     (new_game 0)\<lparr>board := put_cell (put_cell (board (new_game 0)) 2 1 None) 4 1 (Some (Man False))\<rparr>"

definition promotion_position :: game where
  "promotion_position =
     (new_game 0)\<lparr>board := put_cell (put_cell empty_board 2 3 (Some (Man True))) 1 2 (Some (Man False))\<rparr>"

section \<open>Reading and writing squares of a well-formed board\<close>

lemma bindE_Inr [simp]: "bindE (Inr x) f = f x" by (simp add: bindE_def)
lemma bindE_Inl [simp]: "bindE (Inl e) f = Inl e" by (simp add: bindE_def)

lemma py_index_in_range: "0 \<le> i \<Longrightarrow> i < int (length xs) \<Longrightarrow> py_index xs i = Inr (nat i)"
  by (simp add: py_index_def)

lemma wf_board_row: "wf_board b \<Longrightarrow> 0 \<le> r \<Longrightarrow> r < 8 \<Longrightarrow> length (b ! nat r) = 8"
  by (auto simp: wf_board_def list_all_length)

lemma get_piece_at_wf:
  "wf_board (board g) \<Longrightarrow> in_bounds r c \<Longrightarrow> get_piece_at g (r, c) = Inr (cell (board g) r c)"
  by (simp add: get_piece_at_def in_bounds_def BOARD_DIMENSION_def wf_board_row py_index_in_range
      cell_def wf_board_def)

lemma set_piece_at_wf:
  "wf_board (board g) \<Longrightarrow> in_bounds r c \<Longrightarrow>
   set_piece_at g (r, c) v = Inr (g\<lparr>board := put_cell (board g) r c v\<rparr>)"
  by (simp add: set_piece_at_def in_bounds_def BOARD_DIMENSION_def wf_board_row py_index_in_range
      put_cell_def wf_board_def)

lemma wf_board_put_cell: "wf_board b \<Longrightarrow> wf_board (put_cell b r c v)"
  by (cases "nat r < length b") (auto simp: wf_board_def put_cell_def list_all_length nth_list_update)

lemma cell_put_cell:
  "wf_board b \<Longrightarrow> in_bounds r c \<Longrightarrow> in_bounds r' c' \<Longrightarrow>
   cell (put_cell b r c v) r' c' = (if r' = r \<and> c' = c then v else cell b r' c')"
  by (auto simp: wf_board_def put_cell_def cell_def in_bounds_def BOARD_DIMENSION_def
      list_all_length nth_list_update)

lemma board_eqI:
  assumes "wf_board b" "wf_board b'" "\<And>r c. in_bounds r c \<Longrightarrow> cell b r c = cell b' r c"
  shows "b = b'"
proof (rule nth_equalityI)
  show "length b = length b'" using assms by (simp add: wf_board_def)
next
  fix i assume i: "i < length b"
  then have i8: "i < 8" using assms by (simp add: wf_board_def)
  show "b ! i = b' ! i"
  proof (rule nth_equalityI)
    show "length (b ! i) = length (b' ! i)"
      using assms i8 by (simp add: wf_board_def list_all_length)
  next
    fix j assume "j < length (b ! i)"
    then have j8: "j < 8" using assms i8 by (simp add: wf_board_def list_all_length)
    have "in_bounds (int i) (int j)" using i8 j8 by (simp add: in_bounds_def BOARD_DIMENSION_def)
    from assms(3)[OF this] show "b ! i ! j = b' ! i ! j" by (simp add: cell_def)
  qed
qed

section \<open>Executing a move on a well-formed board\<close>

lemma in_bounds_mid:
  "in_bounds r1 c1 \<Longrightarrow> in_bounds r2 c2 \<Longrightarrow> in_bounds ((r1 + r2) div 2) ((c1 + c2) div 2)"
  by (auto simp: in_bounds_def BOARD_DIMENSION_def)

lemma execute_board_move_wf:
  assumes wf: "wf_board (board g)" and s: "in_bounds r1 c1" and e: "in_bounds r2 c2"
  shows "execute_board_move g p (r1, c1) (r2, c2) el =
    (let jump = (\<bar>r1 - r2\<bar> = 2);
         mr = (r1 + r2) div 2; mc = (c1 + c2) div 2;
         captured = (if jump then cell (board g) mr mc else None);
         promo = (case p of Man p1 \<Rightarrow> (p1 \<and> r2 = 0) \<or> (\<not> p1 \<and> r2 = 7) | King p1 \<Rightarrow> False);
         promoted = (if promo then Some (King (is_player1 p)) else None);
         b1 = (if jump then put_cell (board g) mr mc None else board g);
         b2 = put_cell b1 r2 c2 (if promo then promoted else Some p);
         b3 = put_cell b2 r1 c1 None
     in Inr (Move p (r1, c1) (r2, c2) captured promo promoted el (if jump then Some (mr, mc) else None),
             g\<lparr>board := b3,
               red_captured := (case captured of None \<Rightarrow> red_captured g
                  | Some cp \<Rightarrow> if is_player1 p then red_captured g else red_captured g @ [cp]),
               black_captured := (case captured of None \<Rightarrow> black_captured g
                  | Some cp \<Rightarrow> if is_player1 p then black_captured g @ [cp] else black_captured g)\<rparr>))"
proof -
  have m: "in_bounds ((r1 + r2) div 2) ((c1 + c2) div 2)" using s e by (rule in_bounds_mid)
  show ?thesis
  proof (cases "\<bar>r1 - r2\<bar> = 2")
    case True
    show ?thesis
      using True wf s e m
      by (cases p; cases "cell (board g) ((r1 + r2) div 2) ((c1 + c2) div 2)")
         (simp_all add: execute_board_move_def Let_def get_piece_at_wf set_piece_at_wf
            wf_board_put_cell)
  next
    case False
    show ?thesis
      using False wf s e
      by (cases p) (simp_all add: execute_board_move_def Let_def set_piece_at_wf wf_board_put_cell)
  qed
qed

section \<open>Fields after a move\<close>

lemma update_game_status_fields [simp]:
  "board (update_game_status g) = board g"
  "current_player_index (update_game_status g) = current_player_index g"
  "move_history (update_game_status g) = move_history g"
  "red_captured (update_game_status g) = red_captured g"
  "black_captured (update_game_status g) = black_captured g"
  "turn_start_time (update_game_status g) = turn_start_time g"
  "red_turn_time (update_game_status g) = red_turn_time g"
  "black_turn_time (update_game_status g) = black_turn_time g"
  "position_history (update_game_status g) = position_history g"
  by (simp_all add: update_game_status_def Let_def)

lemma update_position_history_fields [simp]:
  "board (update_position_history g) = board g"
  "current_player_index (update_position_history g) = current_player_index g"
  "game_state (update_position_history g) = game_state g"
  "move_history (update_position_history g) = move_history g"
  "red_captured (update_position_history g) = red_captured g"
  "black_captured (update_position_history g) = black_captured g"
  "turn_start_time (update_position_history g) = turn_start_time g"
  "red_turn_time (update_position_history g) = red_turn_time g"
  "black_turn_time (update_position_history g) = black_turn_time g"
  by (simp_all add: update_position_history_def Let_def)

lemma update_game_after_move_fields [simp]:
  "board (update_game_after_move now g m) = board g"
  "current_player_index (update_game_after_move now g m) = 1 - current_player_index g"
  "move_history (update_game_after_move now g m) = move_history g @ [m]"
  "red_captured (update_game_after_move now g m) = red_captured g"
  "black_captured (update_game_after_move now g m) = black_captured g"
  "turn_start_time (update_game_after_move now g m) = now"
  "red_turn_time (update_game_after_move now g m) =
     (if current_player_index g = 0 then red_turn_time g + turn_duration m else red_turn_time g)"
  "black_turn_time (update_game_after_move now g m) =
     (if current_player_index g = 0 then black_turn_time g else black_turn_time g + turn_duration m)"
  by (simp_all add: update_game_after_move_def Let_def)

lemma current_player_wf:
  "wf_game g \<Longrightarrow> player_is_player1 (get_current_player g) = (current_player_index g = 0)"
  by (auto simp: wf_game_def get_current_player_def players_def Player_def)

lemma make_move_wf:
  assumes wf: "wf_game g" and s: "in_bounds (fst start) (snd start)"
  shows "make_move now1 now2 g start end =
    (case cell (board g) (fst start) (snd start) of
       None \<Rightarrow> Inr (False, g)
     | Some piece \<Rightarrow>
         if is_player1 piece \<noteq> player_is_player1 (get_current_player g) then Inr (False, g)
         else bindE (execute_board_move g piece start end (now1 - turn_start_time g))
                (\<lambda>(m, g1). Inr (True, update_game_after_move now2 g1 m)))"
  using wf s get_piece_at_wf[of g "fst start" "snd start"]
  by (simp add: make_move_def wf_game_def Let_def split: option.splits)

text \<open>The move record and the state that \<open>execute_board_move\<close> returns, field by field.\<close>

lemma execute_board_move_fields:
  assumes wf: "wf_board (board g)" and s: "in_bounds (fst start) (snd start)"
    and e: "in_bounds (fst end) (snd end)"
  shows "\<exists>m g1. execute_board_move g p start end el = Inr (m, g1)
     \<and> piece_moved m = p \<and> start_coords m = start \<and> end_coords m = end \<and> turn_duration m = el
     \<and> piece_captured m =
         (if \<bar>fst start - fst end\<bar> = 2
          then cell (board g) ((fst start + fst end) div 2) ((snd start + snd end) div 2) else None)
     \<and> is_promotion m =
         (case p of Man p1 \<Rightarrow> (p1 \<and> fst end = 0) \<or> (\<not> p1 \<and> fst end = 7) | King p1 \<Rightarrow> False)
     \<and> promoted_piece m = (if is_promotion m then Some (King (is_player1 p)) else None)
     \<and> captured_coords m =
         (if \<bar>fst start - fst end\<bar> = 2
          then ((fst start + fst end) div 2, (snd start + snd end) div 2) else end)
     \<and> board g1 =
         put_cell
           (put_cell
              (if \<bar>fst start - fst end\<bar> = 2
               then put_cell (board g) ((fst start + fst end) div 2) ((snd start + snd end) div 2) None
               else board g)
              (fst end) (snd end) (Some (if is_promotion m then King (is_player1 p) else p)))
           (fst start) (snd start) None
     \<and> red_captured g1 =
         (case piece_captured m of None \<Rightarrow> red_captured g
          | Some cp \<Rightarrow> if is_player1 p then red_captured g else red_captured g @ [cp])
     \<and> black_captured g1 =
         (case piece_captured m of None \<Rightarrow> black_captured g
          | Some cp \<Rightarrow> if is_player1 p then black_captured g @ [cp] else black_captured g)
     \<and> current_player_index g1 = current_player_index g \<and> game_state g1 = game_state g
     \<and> move_history g1 = move_history g \<and> turn_start_time g1 = turn_start_time g
     \<and> red_turn_time g1 = red_turn_time g \<and> black_turn_time g1 = black_turn_time g
     \<and> position_history g1 = position_history g"
  using execute_board_move_wf[OF wf, of "fst start" "snd start" "fst end" "snd end" p el] s e
  by (cases p) (simp_all add: Let_def Move_def)

section \<open>The checks of make_move\<close>

lemma get_piece_at_cell:
  "wf_board (board g) \<Longrightarrow> in_bounds (fst sq) (snd sq) \<Longrightarrow>
   get_piece_at g sq = Inr (cell (board g) (fst sq) (snd sq))"
  using get_piece_at_wf[of g "fst sq" "snd sq"] by simp

text \<open>What a call of \<open>make_move\<close> that passes the two checks returns.\<close>

lemma make_move_executes:
  assumes wf: "wf_game g" and s: "in_bounds (fst start) (snd start)"
    and e: "in_bounds (fst end) (snd end)"
    and p: "get_piece_at g start = Inr (Some piece)"
    and side: "is_player1 piece = player_is_player1 (get_current_player g)"
  shows "\<exists>m g1. execute_board_move g piece start end (now1 - turn_start_time g) = Inr (m, g1)
     \<and> make_move now1 now2 g start end = Inr (True, update_game_after_move now2 g1 m)"
proof -
  have wfb: "wf_board (board g)" using wf by (simp add: wf_game_def)
  from execute_board_move_fields[OF wfb s e, of piece "now1 - turn_start_time g"]
  obtain m g1 where "execute_board_move g piece start end (now1 - turn_start_time g) = Inr (m, g1)"
    by blast
  moreover have "cell (board g) (fst start) (snd start) = Some piece"
    using p get_piece_at_cell[OF wfb s] by simp
  ultimately show ?thesis using side by (simp add: make_move_wf[OF wf s])
qed



section \<open>The board after a move\<close>

lemma wf_game_after_move:
  "wf_game g \<Longrightarrow> wf_board (board g1) \<Longrightarrow> current_player_index g1 = current_player_index g \<Longrightarrow>
   wf_game (update_game_after_move now g1 m)"
  by (auto simp: wf_game_def)

text \<open>The board after a move, square by square.\<close>

lemma board_after_execute:
  assumes wf: "wf_board (board g)" and s: "in_bounds (fst start) (snd start)"
    and e: "in_bounds (fst end) (snd end)"
    and ex: "execute_board_move g p start end el = Inr (m, g1)"
    and sq: "in_bounds r c"
  shows "wf_board (board g1)"
    and "cell (board g1) r c =
      (if (r, c) = start then None
       else if (r, c) = end then Some (if is_promotion m then King (is_player1 p) else p)
       else if \<bar>fst start - fst end\<bar> = 2 \<and> (r, c) = ((fst start + fst end) div 2, (snd start + snd end) div 2)
       then None else cell (board g) r c)"
proof -
  let ?mr = "(fst start + fst end) div 2" and ?mc = "(snd start + snd end) div 2"
  have m: "in_bounds ?mr ?mc" using s e by (rule in_bounds_mid)
  from execute_board_move_fields[OF wf s e, of p el] ex
  have b: "board g1 =
         put_cell
           (put_cell
              (if \<bar>fst start - fst end\<bar> = 2 then put_cell (board g) ?mr ?mc None else board g)
              (fst end) (snd end) (Some (if is_promotion m then King (is_player1 p) else p)))
           (fst start) (snd start) None"
    by auto
  show "wf_board (board g1)" using wf by (simp add: b wf_board_put_cell)
  show "cell (board g1) r c =
      (if (r, c) = start then None
       else if (r, c) = end then Some (if is_promotion m then King (is_player1 p) else p)
       else if \<bar>fst start - fst end\<bar> = 2 \<and> (r, c) = (?mr, ?mc)
       then None else cell (board g) r c)"
    using wf s e m sq
    by (cases start; cases "end") (auto simp: b cell_put_cell wf_board_put_cell)
qed

section \<open>Jumps, captures and promotion\<close>

text \<open>
  Claim C5. After \<open>make_move\<close> has executed a move over two rows, the square halfway
  between start and end is empty; a piece that stood there has been appended to
  \<open>black_captured\<close> when red moved and to \<open>red_captured\<close> when black moved (the list of
  the mover's opponent), the other list being unchanged; and every square of the board other
  than start, end and the halfway square holds what it held before.
\<close>

theorem jump_capture_frame:
  assumes wf: "wf_game g" and s: "in_bounds (fst start) (snd start)"
    and e: "in_bounds (fst end) (snd end)"
    and p: "get_piece_at g start = Inr (Some piece)"
    and side: "is_player1 piece = player_is_player1 (get_current_player g)"
    and dist: "\<bar>fst start - fst end\<bar> = 2"
  shows "\<exists>g'. make_move now1 now2 g start end = Inr (True, g')
     \<and> get_piece_at g' ((fst start + fst end) div 2, (snd start + snd end) div 2) = Inr None
     \<and> (\<forall>cp. get_piece_at g ((fst start + fst end) div 2, (snd start + snd end) div 2) = Inr (Some cp)
           \<longrightarrow> (if is_player1 piece
                then black_captured g' = black_captured g @ [cp] \<and> red_captured g' = red_captured g
                else red_captured g' = red_captured g @ [cp] \<and> black_captured g' = black_captured g))
     \<and> (\<forall>sq. in_bounds (fst sq) (snd sq) \<and> sq \<noteq> start \<and> sq \<noteq> end
              \<and> sq \<noteq> ((fst start + fst end) div 2, (snd start + snd end) div 2)
           \<longrightarrow> get_piece_at g' sq = get_piece_at g sq)"
proof -
  have wfb: "wf_board (board g)" using wf by (simp add: wf_game_def)
  let ?mr = "(fst start + fst end) div 2" and ?mc = "(snd start + snd end) div 2"
  have mb: "in_bounds ?mr ?mc" using s e by (rule in_bounds_mid)
  have ms: "(?mr, ?mc) \<noteq> start" and me: "(?mr, ?mc) \<noteq> end"
    using dist by (cases start; cases "end"; auto)+
  from make_move_executes[OF wf s e p side, of now1 now2]
  obtain m g1 where
    ex: "execute_board_move g piece start end (now1 - turn_start_time g) = Inr (m, g1)"
    and mm: "make_move now1 now2 g start end = Inr (True, update_game_after_move now2 g1 m)"
    by blast
  let ?g' = "update_game_after_move now2 g1 m"
  note ba = board_after_execute[OF wfb s e ex]
  have wfb': "wf_board (board ?g')" using ba(1)[OF mb] by simp
  have rd: "\<And>sq. in_bounds (fst sq) (snd sq) \<Longrightarrow> get_piece_at ?g' sq = Inr (cell (board g1) (fst sq) (snd sq))"
    using get_piece_at_cell[OF wfb'] by simp
  have c1: "get_piece_at ?g' (?mr, ?mc) = Inr None"
    using rd[of "(?mr, ?mc)"] mb ba(2)[OF mb] ms me dist by simp
  from execute_board_move_fields[OF wfb s e, of piece "now1 - turn_start_time g"] ex
  have f: "piece_captured m = cell (board g) ?mr ?mc"
    "red_captured g1 = (case piece_captured m of None \<Rightarrow> red_captured g
          | Some cp \<Rightarrow> if is_player1 piece then red_captured g else red_captured g @ [cp])"
    "black_captured g1 = (case piece_captured m of None \<Rightarrow> black_captured g
          | Some cp \<Rightarrow> if is_player1 piece then black_captured g @ [cp] else black_captured g)"
    using dist by auto
  have c2: "\<forall>cp. get_piece_at g (?mr, ?mc) = Inr (Some cp)
           \<longrightarrow> (if is_player1 piece
                then black_captured ?g' = black_captured g @ [cp] \<and> red_captured ?g' = red_captured g
                else red_captured ?g' = red_captured g @ [cp] \<and> black_captured ?g' = black_captured g)"
    using get_piece_at_wf[OF wfb mb] f by auto
  have c3: "\<forall>sq. in_bounds (fst sq) (snd sq) \<and> sq \<noteq> start \<and> sq \<noteq> end \<and> sq \<noteq> (?mr, ?mc)
           \<longrightarrow> get_piece_at ?g' sq = get_piece_at g sq"
  proof (intro allI impI)
    fix sq :: coords
    assume a: "in_bounds (fst sq) (snd sq) \<and> sq \<noteq> start \<and> sq \<noteq> end \<and> sq \<noteq> (?mr, ?mc)"
    then have ib: "in_bounds (fst sq) (snd sq)" by simp
    have "cell (board g1) (fst sq) (snd sq) = cell (board g) (fst sq) (snd sq)"
      using ba(2)[OF ib] a by simp
    then show "get_piece_at ?g' sq = get_piece_at g sq"
      using rd[OF ib] get_piece_at_cell[OF wfb ib] by simp
  qed
  show ?thesis using mm c1 c2 c3 by blast
qed

theorem jump_capture_frame_witness:
  "wf_game capture_position \<and> in_bounds 5 0 \<and> in_bounds 3 2
   \<and> get_piece_at capture_position (5, 0) = Inr (Some (Man True))
   \<and> is_player1 (Man True) = player_is_player1 (get_current_player capture_position)
   \<and> get_piece_at capture_position (4, 1) = Inr (Some (Man False))
   \<and> (\<exists>g'. make_move 1 2 capture_position (5, 0) (3, 2) = Inr (True, g')
         \<and> get_piece_at g' (4, 1) = Inr None
         \<and> black_captured g' = [Man False] \<and> red_captured g' = []
         \<and> get_piece_at g' (5, 2) = Inr (Some (Man True)))"
proof -
  have wf: "wf_game capture_position" by code_simp
  have s: "in_bounds (fst (5, 0)) (snd (5, 0))" by code_simp
  have e: "in_bounds (fst (3, 2)) (snd (3, 2))" by code_simp
  have p: "get_piece_at capture_position (5, 0) = Inr (Some (Man True))" by code_simp
  have side: "is_player1 (Man True) = player_is_player1 (get_current_player capture_position)"
    by code_simp
  have dist: "\<bar>fst (5, 0) - fst (3, 2)\<bar> = (2::int)" by simp
  have mid: "get_piece_at capture_position (4, 1) = Inr (Some (Man False))" by code_simp
  have o: "get_piece_at capture_position (5, 2) = Inr (Some (Man True))" by code_simp
  have o': "in_bounds (fst (5, 2)) (snd (5, 2))" by code_simp
  have f: "red_captured capture_position = []" "black_captured capture_position = []"
    by code_simp+
  from jump_capture_frame[OF wf s e p side dist, of 1 2]
  obtain g' where g: "make_move 1 2 capture_position (5, 0) (3, 2) = Inr (True, g')"
    "get_piece_at g' (4, 1) = Inr None"
    "\<forall>cp. get_piece_at capture_position (4, 1) = Inr (Some cp)
        \<longrightarrow> black_captured g' = black_captured capture_position @ [cp]
            \<and> red_captured g' = red_captured capture_position"
    "\<forall>sq. in_bounds (fst sq) (snd sq) \<and> sq \<noteq> (5, 0) \<and> sq \<noteq> (3, 2) \<and> sq \<noteq> (4, 1)
        \<longrightarrow> get_piece_at g' sq = get_piece_at capture_position sq"
    by auto
  from g(3) mid f have "black_captured g' = [Man False] \<and> red_captured g' = []" by simp
  moreover from g(4) o' have "get_piece_at g' (5, 2) = get_piece_at capture_position (5, 2)"
    by auto
  ultimately show ?thesis using wf s e p side mid g(1,2) o by auto
qed

text \<open>
  Claim C6. The move is flagged as a promotion exactly when the piece moved is a red man
  ending in row 0 or a black man ending in row 7; then the end square receives a king of the
  same owner in this very call, and otherwise (a man ending in another row, a king ending
  anywhere) it receives the piece unchanged. Whether the move counts as a jump, which piece
  it captures, the emptying of the halfway square and the two captured lists are given by
  expressions in which the promotion does not occur: they are what they are without it.
\<close>

theorem promotion_on_last_row:
  assumes wf: "wf_game g" and s: "in_bounds (fst start) (snd start)"
    and e: "in_bounds (fst end) (snd end)"
    and ne: "start \<noteq> end"
    and p: "get_piece_at g start = Inr (Some piece)"
    and side: "is_player1 piece = player_is_player1 (get_current_player g)"
  shows "\<exists>g' m. make_move now1 now2 g start end = Inr (True, g')
     \<and> move_history g' = move_history g @ [m]
     \<and> is_promotion m =
         (case piece of Man p1 \<Rightarrow> (p1 \<and> fst end = 0) \<or> (\<not> p1 \<and> fst end = 7) | King p1 \<Rightarrow> False)
     \<and> get_piece_at g' end = Inr (Some (if is_promotion m then King (is_player1 piece) else piece))
     \<and> promoted_piece m = (if is_promotion m then Some (King (is_player1 piece)) else None)
     \<and> piece_moved m = piece
     \<and> is_jump m = (\<bar>fst start - fst end\<bar> = 2)
     \<and> piece_captured m =
         (if \<bar>fst start - fst end\<bar> = 2
          then cell (board g) ((fst start + fst end) div 2) ((snd start + snd end) div 2) else None)
     \<and> (\<bar>fst start - fst end\<bar> = 2 \<longrightarrow>
          get_piece_at g' ((fst start + fst end) div 2, (snd start + snd end) div 2) = Inr None)
     \<and> red_captured g' =
         (case piece_captured m of None \<Rightarrow> red_captured g
          | Some cp \<Rightarrow> if is_player1 piece then red_captured g else red_captured g @ [cp])
     \<and> black_captured g' =
         (case piece_captured m of None \<Rightarrow> black_captured g
          | Some cp \<Rightarrow> if is_player1 piece then black_captured g @ [cp] else black_captured g)"
proof -
  have wfb: "wf_board (board g)" using wf by (simp add: wf_game_def)
  let ?mr = "(fst start + fst end) div 2" and ?mc = "(snd start + snd end) div 2"
  have mb: "in_bounds ?mr ?mc" using s e by (rule in_bounds_mid)
  from make_move_executes[OF wf s e p side, of now1 now2]
  obtain m g1 where
    ex: "execute_board_move g piece start end (now1 - turn_start_time g) = Inr (m, g1)"
    and mm: "make_move now1 now2 g start end = Inr (True, update_game_after_move now2 g1 m)"
    by blast
  let ?g' = "update_game_after_move now2 g1 m"
  note ba = board_after_execute[OF wfb s e ex]
  have wfb': "wf_board (board ?g')" using ba(1)[OF mb] by simp
  have rd: "\<And>sq. in_bounds (fst sq) (snd sq) \<Longrightarrow> get_piece_at ?g' sq = Inr (cell (board g1) (fst sq) (snd sq))"
    using get_piece_at_cell[OF wfb'] by simp
  from execute_board_move_fields[OF wfb s e, of piece "now1 - turn_start_time g"] ex
  have f: "piece_moved m = piece" "start_coords m = start" "end_coords m = end"
    "piece_captured m = (if \<bar>fst start - fst end\<bar> = 2 then cell (board g) ?mr ?mc else None)"
    "is_promotion m =
         (case piece of Man p1 \<Rightarrow> (p1 \<and> fst end = 0) \<or> (\<not> p1 \<and> fst end = 7) | King p1 \<Rightarrow> False)"
    "promoted_piece m = (if is_promotion m then Some (King (is_player1 piece)) else None)"
    "red_captured g1 = (case piece_captured m of None \<Rightarrow> red_captured g
          | Some cp \<Rightarrow> if is_player1 piece then red_captured g else red_captured g @ [cp])"
    "black_captured g1 = (case piece_captured m of None \<Rightarrow> black_captured g
          | Some cp \<Rightarrow> if is_player1 piece then black_captured g @ [cp] else black_captured g)"
    "move_history g1 = move_history g"
    by auto
  have c1: "get_piece_at ?g' end = Inr (Some (if is_promotion m then King (is_player1 piece) else piece))"
    using rd[OF e] ba(2)[OF e] ne by simp
  have c2: "\<bar>fst start - fst end\<bar> = 2 \<longrightarrow> get_piece_at ?g' (?mr, ?mc) = Inr None"
  proof
    assume dist: "\<bar>fst start - fst end\<bar> = 2"
    have ms: "(?mr, ?mc) \<noteq> start" and me: "(?mr, ?mc) \<noteq> end"
      using dist by (cases start; cases "end"; auto)+
    show "get_piece_at ?g' (?mr, ?mc) = Inr None"
      using rd[of "(?mr, ?mc)"] mb ba(2)[OF mb] ms me dist by simp
  qed
  have c3: "is_jump m = (\<bar>fst start - fst end\<bar> = 2)" using f by (simp add: is_jump_def)
  have h: "move_history ?g' = move_history g @ [m]" using f by simp
  have r: "red_captured ?g' = (case piece_captured m of None \<Rightarrow> red_captured g
          | Some cp \<Rightarrow> if is_player1 piece then red_captured g else red_captured g @ [cp])"
    using f by simp
  have b: "black_captured ?g' = (case piece_captured m of None \<Rightarrow> black_captured g
          | Some cp \<Rightarrow> if is_player1 piece then black_captured g @ [cp] else black_captured g)"
    using f by simp
  show ?thesis
    apply (rule exI[of _ ?g'], rule exI[of _ m])
    using mm h f(5) c1 f(6) f(1) c3 f(4) c2 r b by blast
qed

theorem promotion_on_last_row_witness:
  "wf_game promotion_position \<and> in_bounds 2 3 \<and> in_bounds 0 1 \<and> (2, 3) \<noteq> ((0, 1) :: coords)
   \<and> get_piece_at promotion_position (2, 3) = Inr (Some (Man True))
   \<and> is_player1 (Man True) = player_is_player1 (get_current_player promotion_position)
   \<and> (\<exists>g' m. make_move 1 2 promotion_position (2, 3) (0, 1) = Inr (True, g')
         \<and> move_history g' = [m] \<and> is_promotion m \<and> piece_moved m = Man True
         \<and> get_piece_at g' (0, 1) = Inr (Some (King True))
         \<and> is_jump m \<and> piece_captured m = Some (Man False)
         \<and> get_piece_at g' (1, 2) = Inr None
         \<and> black_captured g' = [Man False] \<and> red_captured g' = [])"
proof -
  have wf: "wf_game promotion_position" by code_simp
  have s: "in_bounds (fst (2, 3)) (snd (2, 3))" by code_simp
  have e: "in_bounds (fst (0, 1)) (snd (0, 1))" by code_simp
  have ne: "(2, 3) \<noteq> ((0, 1) :: coords)" by simp
  have p: "get_piece_at promotion_position (2, 3) = Inr (Some (Man True))" by code_simp
  have side: "is_player1 (Man True) = player_is_player1 (get_current_player promotion_position)"
    by code_simp
  have mid: "cell (board promotion_position) 1 2 = Some (Man False)" by code_simp
  have f: "red_captured promotion_position = []" "black_captured promotion_position = []"
    "move_history promotion_position = []"
    by code_simp+
  from promotion_on_last_row[OF wf s e ne p side, of 1 2]
  show ?thesis using wf s e p side mid f by auto
qed

section \<open>Forced capture\<close>

lemma iterate_squares_product:
  "iterate_squares = List.product [0 .. BOARD_DIMENSION - 1] [0 .. BOARD_DIMENSION - 1]"
  by (simp add: iterate_squares_def product_concat_map)

lemma distinct_iterate_squares: "distinct iterate_squares"
  by (simp add: iterate_squares_product distinct_product)

lemma set_iterate_squares: "sq \<in> set iterate_squares \<longleftrightarrow> in_bounds (fst sq) (snd sq)"
  by (cases sq) (auto simp: iterate_squares_product in_bounds_def)

text \<open>The jumps that the loop of \<open>get_all_jumps_for_player\<close> collects at one square.\<close>

lemma all_jumps_loop_at:
  "distinct sqs \<Longrightarrow>
   map snd (filter (\<lambda>m. fst m = sq) (all_jumps_loop b p1 sqs)) =
     (if sq \<in> set sqs then
        (case cell b (fst sq) (snd sq) of
           None \<Rightarrow> []
         | Some piece \<Rightarrow>
             if is_player1 piece = p1
             then filter (\<lambda>d. \<bar>fst sq - fst d\<bar> = 2) (get_moves piece b sq) else [])
      else [])"
proof (induction sqs)
  case Nil
  show ?case by simp
next
  case (Cons x xs)
  have here: "filter (\<lambda>m. fst m = sq) (map (Pair x) ys) = (if x = sq then map (Pair x) ys else [])"
    for ys :: "coords list"
    by (induction ys) auto
  have there: "map snd (map (Pair x) ys) = ys" for ys :: "coords list"
    by (induction ys) auto
  from Cons have IH: "map snd (filter (\<lambda>m. fst m = sq) (all_jumps_loop b p1 xs)) =
     (if sq \<in> set xs then
        (case cell b (fst sq) (snd sq) of
           None \<Rightarrow> []
         | Some piece \<Rightarrow>
             if is_player1 piece = p1
             then filter (\<lambda>d. \<bar>fst sq - fst d\<bar> = 2) (get_moves piece b sq) else [])
      else [])"
    and nx: "x \<notin> set xs"
    by simp_all
  show ?case
  proof (cases "x = sq")
    case True
    then have "sq \<notin> set xs" using nx by simp
    then show ?thesis using True IH
      by (cases "cell b (fst sq) (snd sq)") (simp_all add: here there comp_def)
  next
    case False
    then show ?thesis using IH
      by (cases "cell b (fst x) (snd x)") (auto simp: here)
  qed
qed

lemma all_jumps_loop_set:
  "(s, d) \<in> set (all_jumps_loop b p1 sqs) \<longleftrightarrow>
     s \<in> set sqs \<and> (\<exists>q. cell b (fst s) (snd s) = Some q \<and> is_player1 q = p1
        \<and> d \<in> set (get_moves q b s) \<and> \<bar>fst s - fst d\<bar> = 2)"
proof (induction sqs)
  case Nil
  show ?case by simp
next
  case (Cons x xs)
  show ?case
  proof (cases "cell b (fst x) (snd x)")
    case None
    then show ?thesis using Cons by auto
  next
    case (Some q)
    then show ?thesis using Cons by (cases "is_player1 q = p1") auto
  qed
qed

lemma all_jumps_nonempty:
  "get_all_jumps_for_player g pl \<noteq> [] \<longleftrightarrow>
     (\<exists>s q d. in_bounds (fst s) (snd s) \<and> cell (board g) (fst s) (snd s) = Some q
        \<and> is_player1 q = player_is_player1 pl
        \<and> d \<in> set (get_moves q (board g) s) \<and> \<bar>fst s - fst d\<bar> = 2)"
proof -
  have "get_all_jumps_for_player g pl \<noteq> [] \<longleftrightarrow>
      (\<exists>s d. (s, d) \<in> set (get_all_jumps_for_player g pl))"
    by (cases "get_all_jumps_for_player g pl") auto
  then show ?thesis
    by (simp add: get_all_jumps_for_player_def all_jumps_loop_set set_iterate_squares) blast
qed

text \<open>
  Claim C1. Let the square \<open>coords\<close> hold a piece of the side to move. If some piece of
  that side has, among the destinations that \<open>get_moves\<close> generates for it, one two rows
  away from its square, then \<open>get_legal_moves_for_piece\<close> returns exactly the destinations
  of the piece on \<open>coords\<close> that are two rows away, in the order of generation, hence the
  empty list when this piece has none. If no piece of the side has such a destination, it
  returns all that \<open>get_moves\<close> generates for the piece.
\<close>

theorem forced_capture:
  assumes wf: "wf_game g" and c: "in_bounds (fst coords) (snd coords)"
    and p: "get_piece_at g coords = Inr (Some piece)"
    and side: "is_player1 piece = player_is_player1 (get_current_player g)"
  shows "if (\<exists>s q d. in_bounds (fst s) (snd s) \<and> get_piece_at g s = Inr (Some q)
              \<and> is_player1 q = player_is_player1 (get_current_player g)
              \<and> d \<in> set (get_moves q (board g) s) \<and> \<bar>fst s - fst d\<bar> = 2)
         then get_legal_moves_for_piece g coords =
                Inr (filter (\<lambda>d. \<bar>fst coords - fst d\<bar> = 2) (get_moves piece (board g) coords))
              \<and> ((\<forall>d \<in> set (get_moves piece (board g) coords). \<bar>fst coords - fst d\<bar> \<noteq> 2)
                   \<longrightarrow> get_legal_moves_for_piece g coords = Inr [])
         else get_legal_moves_for_piece g coords = Inr (get_moves piece (board g) coords)"
proof -
  have wfb: "wf_board (board g)" using wf by (simp add: wf_game_def)
  let ?pl = "get_current_player g"
  let ?J = "\<exists>s q d. in_bounds (fst s) (snd s) \<and> get_piece_at g s = Inr (Some q)
              \<and> is_player1 q = player_is_player1 ?pl
              \<and> d \<in> set (get_moves q (board g) s) \<and> \<bar>fst s - fst d\<bar> = 2"
  have J: "?J \<longleftrightarrow> get_all_jumps_for_player g ?pl \<noteq> []"
  proof -
    have "in_bounds (fst s) (snd s) \<Longrightarrow>
        get_piece_at g s = Inr (Some q) \<longleftrightarrow> cell (board g) (fst s) (snd s) = Some q" for s q
      using get_piece_at_cell[OF wfb, of s] by simp
    then show ?thesis unfolding all_jumps_nonempty by blast
  qed
  have pc: "cell (board g) (fst coords) (snd coords) = Some piece"
    using p get_piece_at_cell[OF wfb c] by simp
  have lm: "get_legal_moves_for_piece g coords =
      Inr (if get_all_jumps_for_player g ?pl \<noteq> []
           then map snd (filter (\<lambda>m. fst m = coords) (get_all_jumps_for_player g ?pl))
           else get_moves piece (board g) coords)"
    using p side by (simp add: get_legal_moves_for_piece_def legal_moves_at_def Let_def)
  have at: "map snd (filter (\<lambda>m. fst m = coords) (get_all_jumps_for_player g ?pl)) =
      filter (\<lambda>d. \<bar>fst coords - fst d\<bar> = 2) (get_moves piece (board g) coords)"
    using c pc side
    by (simp add: get_all_jumps_for_player_def all_jumps_loop_at[OF distinct_iterate_squares]
        set_iterate_squares)
  show ?thesis
  proof (cases ?J)
    case True
    have ne: "get_all_jumps_for_player g ?pl \<noteq> []" using J True by blast
    have r: "get_legal_moves_for_piece g coords =
        Inr (filter (\<lambda>d. \<bar>fst coords - fst d\<bar> = 2) (get_moves piece (board g) coords))"
      using lm ne at by simp
    have "(\<forall>d \<in> set (get_moves piece (board g) coords). \<bar>fst coords - fst d\<bar> \<noteq> 2)
        \<longrightarrow> get_legal_moves_for_piece g coords = Inr []"
      by (simp add: r filter_empty_conv)
    with r True show ?thesis by (simp only: if_True simp_thms)
  next
    case False
    have e: "get_all_jumps_for_player g ?pl = []" using J False by blast
    have "get_legal_moves_for_piece g coords = Inr (get_moves piece (board g) coords)"
      using lm e by simp
    then show ?thesis using False by (simp only: if_False)
  qed
qed

theorem forced_capture_witness:
  "wf_game capture_position \<and> in_bounds 5 4 \<and> in_bounds 5 2
   \<and> get_piece_at capture_position (5, 4) = Inr (Some (Man True))
   \<and> get_piece_at capture_position (5, 2) = Inr (Some (Man True))
   \<and> is_player1 (Man True) = player_is_player1 (get_current_player capture_position)
   \<and> get_moves (Man True) (board capture_position) (5, 4) = [(4, 3), (4, 5)]
   \<and> get_moves (Man True) (board capture_position) (5, 2) = [(3, 0), (4, 3)]
   \<and> get_legal_moves_for_piece capture_position (5, 4) = Inr []
   \<and> get_legal_moves_for_piece capture_position (5, 2) = Inr [(3, 0)]"
proof -
  have wf: "wf_game capture_position" by code_simp
  have c: "in_bounds (fst (5, 4)) (snd (5, 4))" by code_simp
  have c': "in_bounds (fst (5, 2)) (snd (5, 2))" by code_simp
  have p: "get_piece_at capture_position (5, 4) = Inr (Some (Man True))" by code_simp
  have p': "get_piece_at capture_position (5, 2) = Inr (Some (Man True))" by code_simp
  have side: "is_player1 (Man True) = player_is_player1 (get_current_player capture_position)"
    by code_simp
  have m: "get_moves (Man True) (board capture_position) (5, 4) = [(4, 3), (4, 5)]" by code_simp
  have m': "get_moves (Man True) (board capture_position) (5, 2) = [(3, 0), (4, 3)]" by code_simp
  have J: "\<exists>s q d. in_bounds (fst s) (snd s) \<and> get_piece_at capture_position s = Inr (Some q)
              \<and> is_player1 q = player_is_player1 (get_current_player capture_position)
              \<and> d \<in> set (get_moves q (board capture_position) s) \<and> \<bar>fst s - fst d\<bar> = 2"
    apply (rule exI[of _ "(5, 2)"], rule exI[of _ "Man True"], rule exI[of _ "(3, 0)"])
    using c' p' side m' by simp
  from forced_capture[OF wf c p side] J m
  have "get_legal_moves_for_piece capture_position (5, 4) = Inr []" by simp
  moreover from forced_capture[OF wf c' p' side] J m'
  have "get_legal_moves_for_piece capture_position (5, 2) = Inr [(3, 0)]" by simp
  ultimately show ?thesis using wf c c' p p' side m m' by simp
qed

section \<open>The position string and the numbering of the squares\<close>

lemma to_pdn_loop_entries:
  "to_pdn_loop b sqs acc =
     (fst acc @ [piece_str (the (cell b (fst sq) (snd sq))) (square_num (fst sq) (snd sq)).
                 sq \<leftarrow> sqs, (fst sq + snd sq) mod 2 = 1, cell b (fst sq) (snd sq) \<noteq> None,
                 is_player1 (the (cell b (fst sq) (snd sq)))],
      snd acc @ [piece_str (the (cell b (fst sq) (snd sq))) (square_num (fst sq) (snd sq)).
                 sq \<leftarrow> sqs, (fst sq + snd sq) mod 2 = 1, cell b (fst sq) (snd sq) \<noteq> None,
                 \<not> is_player1 (the (cell b (fst sq) (snd sq)))])"
proof (induction sqs arbitrary: acc)
  case Nil
  show ?case by simp
next
  case (Cons x xs)
  show ?case
    by (cases "cell b (fst x) (snd x)") (simp_all add: Cons.IH)
qed

lemma playable_numbers:
  "map (\<lambda>sq. square_num (fst sq) (snd sq)) (filter (\<lambda>sq. (fst sq + snd sq) mod 2 = 1) iterate_squares)
     = [1 .. 32]"
  by code_simp

lemma square_to_coords_inverse:
  assumes "1 \<le> n" "n \<le> 32"
  shows "in_bounds (fst (square_to_coords n)) (snd (square_to_coords n))
     \<and> (fst (square_to_coords n) + snd (square_to_coords n)) mod 2 = 1
     \<and> square_num (fst (square_to_coords n)) (snd (square_to_coords n)) = n"
proof -
  have "list_all (\<lambda>n. in_bounds (fst (square_to_coords n)) (snd (square_to_coords n))
     \<and> (fst (square_to_coords n) + snd (square_to_coords n)) mod 2 = 1
     \<and> square_num (fst (square_to_coords n)) (snd (square_to_coords n)) = n) [1 .. 32]"
    by code_simp
  moreover have "n \<in> set [1 .. 32]" using assms by simp
  ultimately show ?thesis unfolding list_all_iff by blast
qed

lemma square_num_inverse:
  assumes "in_bounds r c" "(r + c) mod 2 = 1"
  shows "1 \<le> square_num r c \<and> square_num r c \<le> 32 \<and> square_to_coords (square_num r c) = (r, c)"
proof -
  have "list_all (\<lambda>sq. (fst sq + snd sq) mod 2 = 1 \<longrightarrow>
      1 \<le> square_num (fst sq) (snd sq) \<and> square_num (fst sq) (snd sq) \<le> 32
      \<and> square_to_coords (square_num (fst sq) (snd sq)) = sq) iterate_squares"
    by code_simp
  moreover have "(r, c) \<in> set iterate_squares" using assms by (simp add: set_iterate_squares)
  ultimately have "(fst (r, c) + snd (r, c)) mod 2 = 1 \<longrightarrow>
      1 \<le> square_num (fst (r, c)) (snd (r, c)) \<and> square_num (fst (r, c)) (snd (r, c)) \<le> 32
      \<and> square_to_coords (square_num (fst (r, c)) (snd (r, c))) = (r, c)"
    unfolding list_all_iff by blast
  then show ?thesis using assms by simp
qed

text \<open>
  Claim C8. \<open>to_pdn\<close> numbers the squares with odd row + column, and only these, from 1
  to 32 in the order of the rows, and \<open>square_to_coords\<close> of the front end is the inverse
  of this numbering: for every n from 1 to 32 it gives a square of the board with odd
  row + column that \<open>to_pdn\<close> numbers n, and every such square is the image of its number.
  The string returned is an opening bracket, the letter R or B of the side to move, a colon,
  the numbers of red's squares separated by commas, a colon, the numbers of black's squares
  separated by commas, and a closing bracket, the number of a king's square prefixed with K.
\<close>

theorem pdn_numbering:
  "(\<forall>n \<in> {1 .. 32}.
       in_bounds (fst (square_to_coords n)) (snd (square_to_coords n))
     \<and> (fst (square_to_coords n) + snd (square_to_coords n)) mod 2 = 1
     \<and> square_num (fst (square_to_coords n)) (snd (square_to_coords n)) = n)
   \<and> (\<forall>r c. in_bounds r c \<and> (r + c) mod 2 = 1 \<longrightarrow>
         square_num r c \<in> {1 .. 32} \<and> square_to_coords (square_num r c) = (r, c))
   \<and> map (\<lambda>sq. square_num (fst sq) (snd sq))
         (filter (\<lambda>sq. (fst sq + snd sq) mod 2 = 1) iterate_squares) = [1 .. 32]
   \<and> to_pdn g =
        ''['' @ (if player_is_player1 (get_current_player g) then ''R'' else ''B'') @ '':''
        @ join '',''
            [piece_str (the (cell (board g) (fst sq) (snd sq))) (square_num (fst sq) (snd sq)).
             sq \<leftarrow> iterate_squares, (fst sq + snd sq) mod 2 = 1,
             cell (board g) (fst sq) (snd sq) \<noteq> None,
             is_player1 (the (cell (board g) (fst sq) (snd sq)))]
        @ '':''
        @ join '',''
            [piece_str (the (cell (board g) (fst sq) (snd sq))) (square_num (fst sq) (snd sq)).
             sq \<leftarrow> iterate_squares, (fst sq + snd sq) mod 2 = 1,
             cell (board g) (fst sq) (snd sq) \<noteq> None,
             \<not> is_player1 (the (cell (board g) (fst sq) (snd sq)))]
        @ '']''
   \<and> (\<forall>p1 n. piece_str (King p1) n = ''K'' @ str_int n \<and> piece_str (Man p1) n = str_int n)"
proof -
  have a: "\<forall>n \<in> {1 .. 32}.
       in_bounds (fst (square_to_coords n)) (snd (square_to_coords n))
     \<and> (fst (square_to_coords n) + snd (square_to_coords n)) mod 2 = 1
     \<and> square_num (fst (square_to_coords n)) (snd (square_to_coords n)) = n"
    using square_to_coords_inverse by simp
  have b: "\<forall>r c. in_bounds r c \<and> (r + c) mod 2 = 1 \<longrightarrow>
         square_num r c \<in> {1 .. 32} \<and> square_to_coords (square_num r c) = (r, c)"
    using square_num_inverse by simp
  have d: "to_pdn g =
        ''['' @ (if player_is_player1 (get_current_player g) then ''R'' else ''B'') @ '':''
        @ join '',''
            [piece_str (the (cell (board g) (fst sq) (snd sq))) (square_num (fst sq) (snd sq)).
             sq \<leftarrow> iterate_squares, (fst sq + snd sq) mod 2 = 1,
             cell (board g) (fst sq) (snd sq) \<noteq> None,
             is_player1 (the (cell (board g) (fst sq) (snd sq)))]
        @ '':''
        @ join '',''
            [piece_str (the (cell (board g) (fst sq) (snd sq))) (square_num (fst sq) (snd sq)).
             sq \<leftarrow> iterate_squares, (fst sq + snd sq) mod 2 = 1,
             cell (board g) (fst sq) (snd sq) \<noteq> None,
             \<not> is_player1 (the (cell (board g) (fst sq) (snd sq)))]
        @ '']''"
    by (simp add: to_pdn_def Let_def to_pdn_loop_entries)
  have e: "\<forall>p1 n. piece_str (King p1) n = ''K'' @ str_int n \<and> piece_str (Man p1) n = str_int n"
    by (simp add: piece_str_def)
  show ?thesis using a b playable_numbers d e by (intro conjI)
qed

theorem pdn_numbering_witness:
  "(11::int) \<in> {1 .. 32} \<and> square_to_coords 11 = (2, 5) \<and> in_bounds 2 5
   \<and> (2 + 5) mod 2 = (1::int) \<and> square_num 2 5 = 11
   \<and> to_pdn (new_game 0) = ''[R:21,22,23,24,25,26,27,28,29,30,31,32:1,2,3,4,5,6,7,8,9,10,11,12]''"
proof -
  have m: "(11::int) \<in> {1 .. 32}" by simp
  have c: "square_to_coords 11 = (2, 5)" by code_simp
  have p: "to_pdn (new_game 0) = ''[R:21,22,23,24,25,26,27,28,29,30,31,32:1,2,3,4,5,6,7,8,9,10,11,12]''"
    by code_simp
  from pdn_numbering[of "new_game 0"] m
  have "in_bounds (fst (square_to_coords 11)) (snd (square_to_coords 11))
     \<and> (fst (square_to_coords 11) + snd (square_to_coords 11)) mod 2 = 1
     \<and> square_num (fst (square_to_coords 11)) (snd (square_to_coords 11)) = 11"
    by blast
  then show ?thesis using m c p by simp
qed

section \<open>The status recomputation\<close>

lemma count_opponent_pieces_length:
  "count_opponent_pieces b p1 sqs n =
     n + int (length (filter (\<lambda>sq. \<exists>q. cell b (fst sq) (snd sq) = Some q \<and> is_player1 q \<noteq> p1) sqs))"
proof (induction sqs arbitrary: n)
  case Nil
  show ?case by simp
next
  case (Cons x xs)
  show ?case by (cases "cell b (fst x) (snd x)") (simp_all add: Cons.IH)
qed

lemma count_opponent_pieces_zero:
  "count_opponent_pieces b p1 sqs 0 = 0 \<longleftrightarrow>
     \<not> (\<exists>sq \<in> set sqs. \<exists>q. cell b (fst sq) (snd sq) = Some q \<and> is_player1 q \<noteq> p1)"
  by (simp add: count_opponent_pieces_length filter_empty_conv)

lemma has_legal_move_loop_iff:
  "has_legal_move_loop g p1 sqs \<longleftrightarrow>
     (\<exists>sq \<in> set sqs. \<exists>q. cell (board g) (fst sq) (snd sq) = Some q \<and> is_player1 q = p1
        \<and> legal_moves_at g (Some q) sq \<noteq> [])"
proof (induction sqs)
  case Nil
  show ?case by simp
next
  case (Cons x xs)
  show ?case by (cases "cell (board g) (fst x) (snd x)") (auto simp: Cons.IH)
qed

lemma get_current_player_game_state [simp]:
  "get_current_player (g\<lparr>game_state := s\<rparr>) = get_current_player g"
  by (simp add: get_current_player_def)

lemma get_all_jumps_game_state [simp]:
  "get_all_jumps_for_player (g\<lparr>game_state := s\<rparr>) pl = get_all_jumps_for_player g pl"
  by (simp add: get_all_jumps_for_player_def)

lemma legal_moves_at_game_state [simp]:
  "legal_moves_at (g\<lparr>game_state := s\<rparr>) po sq = legal_moves_at g po sq"
  by (cases po) (simp_all add: legal_moves_at_def Let_def)

lemma has_legal_move_loop_game_state [simp]:
  "has_legal_move_loop (g\<lparr>game_state := s\<rparr>) p1 sqs = has_legal_move_loop g p1 sqs"
  by (simp add: has_legal_move_loop_iff)

lemma update_game_status_game_state [simp]:
  "update_game_status (g\<lparr>game_state := s\<rparr>) = update_game_status g"
  by (simp add: update_game_status_def get_position_hash_def Let_def)

lemma update_game_status_idem [simp]:
  "update_game_status (update_game_status g) = update_game_status g"
proof -
  have "\<exists>s. update_game_status g = g\<lparr>game_state := s\<rparr>"
    unfolding update_game_status_def Let_def by (auto intro: exI)
  then obtain s where "update_game_status g = g\<lparr>game_state := s\<rparr>" ..
  then show ?thesis by simp
qed

section \<open>State changes for any coordinates\<close>

lemma py_index_bound: "py_index xs i = Inr k \<Longrightarrow> k < length xs"
  by (auto simp: py_index_def Let_def split: if_splits)

lemma set_piece_at_fields:
  assumes "set_piece_at g c v = Inr g'"
  shows "current_player_index g' = current_player_index g" "game_state g' = game_state g"
    "move_history g' = move_history g" "red_captured g' = red_captured g"
    "black_captured g' = black_captured g" "turn_start_time g' = turn_start_time g"
    "red_turn_time g' = red_turn_time g" "black_turn_time g' = black_turn_time g"
    "position_history g' = position_history g"
  using assms
  by (auto simp: set_piece_at_def bindE_def split: sum.splits)

lemma set_piece_at_wf_board:
  assumes "set_piece_at g c v = Inr g'" "wf_board (board g)"
  shows "wf_board (board g')"
proof -
  from assms(1) obtain i j where g': "g' = g\<lparr>board := (board g)[i := (board g ! i)[j := v]]\<rparr>"
    and i: "py_index (board g) (fst c) = Inr i"
    by (auto simp: set_piece_at_def bindE_def split: sum.splits)
  have "i < length (board g)" using i by (rule py_index_bound)
  then show ?thesis using assms(2)
    by (auto simp: g' wf_board_def list_all_length nth_list_update)
qed

lemma set_piece_at_wf_game:
  "set_piece_at g c v = Inr g' \<Longrightarrow> wf_game g \<Longrightarrow> wf_game g'"
  using set_piece_at_wf_board[of g c v g'] set_piece_at_fields(1)[of g c v g']
  by (simp add: wf_game_def)

lemma bindE_eq_Inr: "bindE m f = Inr y \<longleftrightarrow> (\<exists>x. m = Inr x \<and> f x = Inr y)"
  by (cases m) (simp_all add: bindE_def)

lemma execute_board_move_any:
  assumes ex: "execute_board_move g p start end el = Inr (m, g1)"
  shows "current_player_index g1 = current_player_index g \<and> game_state g1 = game_state g
    \<and> move_history g1 = move_history g \<and> turn_start_time g1 = turn_start_time g
    \<and> red_turn_time g1 = red_turn_time g \<and> black_turn_time g1 = black_turn_time g
    \<and> position_history g1 = position_history g
    \<and> (wf_board (board g) \<longrightarrow> wf_board (board g1))"
proof -
  define P where "P = (\<lambda>(a :: game) (b :: game).
      current_player_index b = current_player_index a \<and> game_state b = game_state a
    \<and> move_history b = move_history a \<and> turn_start_time b = turn_start_time a
    \<and> red_turn_time b = red_turn_time a \<and> black_turn_time b = black_turn_time a
    \<and> position_history b = position_history a
    \<and> (wf_board (board a) \<longrightarrow> wf_board (board b)))"
  have trans: "P a b \<Longrightarrow> P b c \<Longrightarrow> P a c" for a b c by (simp add: P_def)
  have sp: "set_piece_at a c v = Inr b \<Longrightarrow> P a b" for a b c v
    using set_piece_at_fields[of a c v b] set_piece_at_wf_board[of a c v b] by (simp add: P_def)
  have cap: "P a (case cp of None \<Rightarrow> a
                    | Some c \<Rightarrow> if is_player1 p
                        then a\<lparr>black_captured := black_captured a @ [c]\<rparr>
                        else a\<lparr>red_captured := red_captured a @ [c]\<rparr>)" for a cp
    by (cases cp) (simp_all add: P_def)
  have tail: "P g2 g1"
    if "bindE (set_piece_at g2 end v) (\<lambda>g3. bindE (set_piece_at g3 start None) (\<lambda>g4. Inr (mv, g4)))
          = Inr (m, g1)" for g2 v mv
  proof -
    from that obtain g3 where "set_piece_at g2 end v = Inr g3" "set_piece_at g3 start None = Inr g1"
      by (auto simp: bindE_eq_Inr)
    then show ?thesis using sp trans by blast
  qed
  have "P g g1"
  proof (cases "\<bar>fst start - fst end\<bar> = 2")
    case False
    from ex False have "\<exists>v mv. bindE (set_piece_at g end v)
        (\<lambda>g3. bindE (set_piece_at g3 start None) (\<lambda>g4. Inr (mv, g4))) = Inr (m, g1)"
      unfolding execute_board_move_def Let_def by (simp add: bindE_eq_Inr) blast
    then show ?thesis using tail by blast
  next
    case True
    let ?cc = "((fst start + fst end) div 2, (snd start + snd end) div 2)"
    from ex True obtain cp ga where ga: "set_piece_at g ?cc None = Inr ga"
      and rest: "\<exists>v mv. bindE (set_piece_at
          (case cp of None \<Rightarrow> ga
           | Some c \<Rightarrow> if is_player1 p
               then ga\<lparr>black_captured := black_captured ga @ [c]\<rparr>
               else ga\<lparr>red_captured := red_captured ga @ [c]\<rparr>) end v)
        (\<lambda>g3. bindE (set_piece_at g3 start None) (\<lambda>g4. Inr (mv, g4))) = Inr (m, g1)"
      unfolding execute_board_move_def Let_def by (simp add: bindE_eq_Inr) blast
    from rest tail have "P (case cp of None \<Rightarrow> ga
           | Some c \<Rightarrow> if is_player1 p
               then ga\<lparr>black_captured := black_captured ga @ [c]\<rparr>
               else ga\<lparr>red_captured := red_captured ga @ [c]\<rparr>) g1"
      by blast
    with sp[OF ga] cap[of ga cp] show ?thesis using trans by blast
  qed
  then show ?thesis by (simp add: P_def)
qed

lemma make_move_any:
  assumes mm: "make_move now1 now2 g start end = Inr (ok, g')"
  shows "(\<not> ok \<longrightarrow> g' = g)
     \<and> (ok \<longrightarrow> (\<exists>m g1. g' = update_game_after_move now2 g1 m
           \<and> current_player_index g1 = current_player_index g
           \<and> move_history g1 = move_history g \<and> position_history g1 = position_history g
           \<and> (wf_board (board g) \<longrightarrow> wf_board (board g1))))"
proof -
  from mm obtain po where po: "get_piece_at g start = Inr po"
    unfolding make_move_def by (auto simp: bindE_eq_Inr)
  show ?thesis
  proof (cases po)
    case None
    with mm po show ?thesis by (simp add: make_move_def)
  next
    case (Some piece)
    show ?thesis
    proof (cases "is_player1 piece \<noteq> player_is_player1 (get_current_player g)")
      case True
      with mm po Some show ?thesis by (simp add: make_move_def)
    next
      case False
      with mm po Some obtain m g1 where
        ex: "execute_board_move g piece start end (now1 - turn_start_time g) = Inr (m, g1)"
        and r: "ok" "g' = update_game_after_move now2 g1 m"
        by (auto simp: make_move_def Let_def bindE_eq_Inr)
      from execute_board_move_any[OF ex] r show ?thesis by blast
    qed
  qed
qed

lemma make_move_wf_game:
  "make_move now1 now2 g start end = Inr (ok, g') \<Longrightarrow> wf_game g \<Longrightarrow> wf_game g'"
  using make_move_any[of now1 now2 g start "end" ok g']
  by (cases ok) (auto simp: wf_game_def)

lemma make_move_status:
  "make_move now1 now2 g start end = Inr (True, g') \<Longrightarrow> update_game_status g' = g'"
  using make_move_any[of now1 now2 g start "end" True g']
  by (auto simp: update_game_after_move_def Let_def)

lemma undo_last_move_any:
  assumes u: "undo_last_move now g = Inr g'"
  shows "(move_history g = [] \<longrightarrow> g' = g)
     \<and> (move_history g \<noteq> [] \<longrightarrow> (\<exists>x. g' = update_game_status x
           \<and> move_history x = butlast (move_history g)
           \<and> position_history x = position_history g
           \<and> current_player_index x = 1 - current_player_index g
           \<and> (wf_board (board g) \<longrightarrow> wf_board (board x))))"
proof (cases "move_history g = []")
  case True
  with u show ?thesis by (simp add: undo_last_move_def)
next
  case False
  define Q where "Q = (\<lambda>(a :: game) (b :: game).
      position_history b = position_history a \<and> current_player_index b = current_player_index a
    \<and> move_history b = move_history a \<and> (wf_board (board a) \<longrightarrow> wf_board (board b)))"
  have qrefl: "Q a a" for a by (simp add: Q_def)
  have trans: "Q a b \<Longrightarrow> Q b c \<Longrightarrow> Q a c" for a b c by (simp add: Q_def)
  have sp: "set_piece_at a c v = Inr b \<Longrightarrow> Q a b" for a b c v
    using set_piece_at_fields[of a c v b] set_piece_at_wf_board[of a c v b] by (simp add: Q_def)
  have pop: "pop_captured a s = Inr b \<Longrightarrow> Q a b" for a b s
    by (auto simp: pop_captured_def Q_def split: if_splits)
  let ?m = "last (move_history g)"
  let ?g0 = "g\<lparr>move_history := butlast (move_history g)\<rparr>"
  from u False obtain g1 g2 where
    s1: "undo_restore_piece ?g0 ?m = Inr g1"
    and s2: "undo_restore_captured g1 ?m = Inr g2"
    and g': "g' = undo_bookkeeping now g2 ?m"
    by (auto simp: undo_last_move_def Let_def bindE_eq_Inr)
  have q1: "Q ?g0 g1"
  proof -
    from s1 obtain a where a: "set_piece_at ?g0 (start_coords ?m) (Some (piece_moved ?m)) = Inr a"
      and b: "(if is_promotion ?m
         then bindE (set_piece_at a (start_coords ?m) (Some (Man (is_player1 (piece_moved ?m)))))
                (\<lambda>g2. set_piece_at g2 (end_coords ?m) None)
         else set_piece_at a (end_coords ?m) None) = Inr g1"
      by (auto simp: undo_restore_piece_def bindE_eq_Inr)
    have "Q a g1"
    proof (cases "is_promotion ?m")
      case True
      with b obtain c where "set_piece_at a (start_coords ?m) (Some (Man (is_player1 (piece_moved ?m)))) = Inr c"
        "set_piece_at c (end_coords ?m) None = Inr g1"
        by (auto simp: bindE_eq_Inr)
      then show ?thesis using sp trans by blast
    next
      case False
      with b show ?thesis using sp by simp
    qed
    then show ?thesis using sp[OF a] trans by blast
  qed
  have q2: "Q g1 g2"
  proof (cases "piece_captured ?m")
    case None
    with s2 show ?thesis using qrefl by (simp add: undo_restore_captured_def)
  next
    case (Some cp)
    with s2 obtain a where a: "(if is_jump ?m
                         then set_piece_at g1
                                ((fst (start_coords ?m) + fst (end_coords ?m)) div 2,
                                 (snd (start_coords ?m) + snd (end_coords ?m)) div 2)
                                (Some cp)
                         else Inr g1) = Inr a"
      and b: "pop_captured a (is_player1 (piece_moved ?m)) = Inr g2"
      by (auto simp: undo_restore_captured_def bindE_eq_Inr)
    have "Q g1 a" using a sp qrefl by (cases "is_jump ?m") auto
    then show ?thesis using pop[OF b] trans by blast
  qed
  have "Q ?g0 g2" using q1 q2 trans by blast
  then have f: "move_history g2 = butlast (move_history g)" "position_history g2 = position_history g"
    "current_player_index g2 = current_player_index g" "wf_board (board g) \<longrightarrow> wf_board (board g2)"
    by (simp_all add: Q_def)
  let ?x = "(if is_player1 (piece_moved ?m)
          then g2\<lparr>red_turn_time := red_turn_time g2 - turn_duration ?m\<rparr>
          else g2\<lparr>black_turn_time := black_turn_time g2 - turn_duration ?m\<rparr>)
         \<lparr>current_player_index := 1 - current_player_index g2, turn_start_time := now\<rparr>"
  have "undo_bookkeeping now g2 ?m = update_game_status ?x"
    by (simp add: undo_bookkeeping_def Let_def)
  moreover have "move_history ?x = move_history g2 \<and> position_history ?x = position_history g2
      \<and> current_player_index ?x = 1 - current_player_index g2 \<and> board ?x = board g2"
    by simp
  ultimately have "\<exists>x. undo_bookkeeping now g2 ?m = update_game_status x
      \<and> move_history x = move_history g2 \<and> position_history x = position_history g2
      \<and> current_player_index x = 1 - current_player_index g2 \<and> board x = board g2"
    by blast
  then show ?thesis using False g' f by auto
qed

lemma undo_last_move_wf_game:
  "undo_last_move now g = Inr g' \<Longrightarrow> wf_game g \<Longrightarrow> wf_game g'"
  using undo_last_move_any[of now g g']
  by (cases "move_history g = []") (auto simp: wf_game_def)

lemma undo_last_move_status:
  "undo_last_move now g = Inr g' \<Longrightarrow> move_history g \<noteq> [] \<Longrightarrow> update_game_status g' = g'"
  using undo_last_move_any[of now g g'] by auto

section \<open>The order of the status checks\<close>

text \<open>
  Claim C4. \<open>update_game_status\<close> changes the status only, and sets it in this order: to the
  draw by threefold repetition when the count recorded for the hash of the current position
  is at least 3, whatever else holds; otherwise to the win of the side to move by capture of
  all opponent pieces when no square holds a piece of the other side; otherwise to the win
  of the other side for want of legal moves when \<open>get_legal_moves_for_piece\<close> is empty at
  every square holding a piece of the side to move; otherwise to active. The state returned
  by a successful \<open>make_move\<close>, and by an \<open>undo_last_move\<close> that undoes a move, is the
  result of this recomputation.
\<close>

theorem status_priority:
  assumes wf: "wf_game g"
  shows "update_game_status g = g\<lparr>game_state :=
      (if 3 \<le> dict_get (position_history g) (get_position_hash g) 0
       then ''draw by threefold repetition''
       else if \<not> (\<exists>sq q. in_bounds (fst sq) (snd sq) \<and> get_piece_at g sq = Inr (Some q)
                    \<and> is_player1 q \<noteq> player_is_player1 (get_current_player g))
       then (if player_is_player1 (get_current_player g) then ''Red'' else ''Black'')
              @ '' wins - All opponent pieces captured''
       else if (\<forall>sq q. in_bounds (fst sq) (snd sq) \<and> get_piece_at g sq = Inr (Some q)
                    \<and> is_player1 q = player_is_player1 (get_current_player g)
                  \<longrightarrow> get_legal_moves_for_piece g sq = Inr [])
       then (if player_is_player1 (get_current_player g) then ''Black'' else ''Red'')
              @ '' wins - no legal moves''
       else ''active'')\<rparr>
    \<and> (\<forall>now1 now2 start end g'. make_move now1 now2 g start end = Inr (True, g')
          \<longrightarrow> wf_game g' \<and> update_game_status g' = g')
    \<and> (\<forall>now g'. move_history g \<noteq> [] \<and> undo_last_move now g = Inr g'
          \<longrightarrow> wf_game g' \<and> update_game_status g' = g')"
proof -
  have wfb: "wf_board (board g)" using wf by (simp add: wf_game_def)
  let ?p1 = "player_is_player1 (get_current_player g)"
  have rd: "in_bounds (fst sq) (snd sq) \<Longrightarrow>
      get_piece_at g sq = Inr (Some q) \<longleftrightarrow> cell (board g) (fst sq) (snd sq) = Some q" for sq q
    using get_piece_at_cell[OF wfb, of sq] by simp
  have lg: "in_bounds (fst sq) (snd sq) \<Longrightarrow> cell (board g) (fst sq) (snd sq) = Some q \<Longrightarrow>
      get_legal_moves_for_piece g sq = Inr [] \<longleftrightarrow> legal_moves_at g (Some q) sq = []" for sq q
    using get_piece_at_cell[OF wfb, of sq] by (simp add: get_legal_moves_for_piece_def)
  have bex: "(\<exists>sq \<in> set iterate_squares. P sq) \<longleftrightarrow> (\<exists>sq. in_bounds (fst sq) (snd sq) \<and> P sq)"
    for P :: "coords \<Rightarrow> bool"
    using set_iterate_squares by blast
  have opp: "count_opponent_pieces (board g) ?p1 iterate_squares 0 = 0 \<longleftrightarrow>
      \<not> (\<exists>sq q. in_bounds (fst sq) (snd sq) \<and> get_piece_at g sq = Inr (Some q)
            \<and> is_player1 q \<noteq> ?p1)"
    unfolding count_opponent_pieces_zero bex using rd by blast
  have leg: "\<not> has_legal_move_loop g ?p1 iterate_squares \<longleftrightarrow>
      (\<forall>sq q. in_bounds (fst sq) (snd sq) \<and> get_piece_at g sq = Inr (Some q)
            \<and> is_player1 q = ?p1 \<longrightarrow> get_legal_moves_for_piece g sq = Inr [])"
    unfolding has_legal_move_loop_iff bex using rd lg by blast
  have a: "update_game_status g = g\<lparr>game_state :=
      (if 3 \<le> dict_get (position_history g) (get_position_hash g) 0
       then ''draw by threefold repetition''
       else if count_opponent_pieces (board g) ?p1 iterate_squares 0 = 0
       then (if ?p1 then ''Red'' else ''Black'') @ '' wins - All opponent pieces captured''
       else if \<not> has_legal_move_loop g ?p1 iterate_squares
       then (if ?p1 then ''Black'' else ''Red'') @ '' wins - no legal moves''
       else ''active'')\<rparr>"
    by (simp add: update_game_status_def Let_def)
  have b: "\<forall>now1 now2 start end g'. make_move now1 now2 g start end = Inr (True, g')
          \<longrightarrow> wf_game g' \<and> update_game_status g' = g'"
    using make_move_wf_game[OF _ wf] make_move_status by blast
  have c: "\<forall>now g'. move_history g \<noteq> [] \<and> undo_last_move now g = Inr g'
          \<longrightarrow> wf_game g' \<and> update_game_status g' = g'"
    using undo_last_move_wf_game[OF _ wf] undo_last_move_status by blast
  show ?thesis using a b c unfolding opp leg by (intro conjI)
qed

theorem status_priority_witness:
  "wf_game (new_game 0)
   \<and> update_game_status (new_game 0) = (new_game 0)\<lparr>game_state := ''active''\<rparr>
   \<and> (\<exists>g'. make_move 1 2 (new_game 0) (5, 0) (4, 1) = Inr (True, g')
          \<and> wf_game g' \<and> update_game_status g' = g')"
proof -
  let ?g = "new_game 0"
  have wf: "wf_game ?g" by code_simp
  have c1: "\<not> 3 \<le> dict_get (position_history ?g) (get_position_hash ?g) 0" by code_simp
  have "in_bounds (fst (0, 1)) (snd (0, 1)) \<and> get_piece_at ?g (0, 1) = Inr (Some (Man False))
      \<and> is_player1 (Man False) \<noteq> player_is_player1 (get_current_player ?g)"
    by code_simp
  then have c2: "\<exists>sq q. in_bounds (fst sq) (snd sq) \<and> get_piece_at ?g sq = Inr (Some q)
      \<and> is_player1 q \<noteq> player_is_player1 (get_current_player ?g)"
    by blast
  have "in_bounds (fst (5, 0)) (snd (5, 0)) \<and> get_piece_at ?g (5, 0) = Inr (Some (Man True))
      \<and> is_player1 (Man True) = player_is_player1 (get_current_player ?g)
      \<and> get_legal_moves_for_piece ?g (5, 0) \<noteq> Inr []"
    by code_simp
  then have c3: "\<not> (\<forall>sq q. in_bounds (fst sq) (snd sq) \<and> get_piece_at ?g sq = Inr (Some q)
      \<and> is_player1 q = player_is_player1 (get_current_player ?g)
      \<longrightarrow> get_legal_moves_for_piece ?g sq = Inr [])"
    by blast
  note t = status_priority[OF wf]
  from t have "update_game_status ?g = ?g\<lparr>game_state := ''active''\<rparr>"
    using c1 c2 c3 by (simp only: if_False if_True not_not simp_thms)
  moreover have "in_bounds (fst (5, 0)) (snd (5, 0))" "in_bounds (fst (4, 1)) (snd (4, 1))"
    "get_piece_at ?g (5, 0) = Inr (Some (Man True))"
    "is_player1 (Man True) = player_is_player1 (get_current_player ?g)"
    by code_simp+
  from make_move_executes[OF wf this, of 1 2]
  have "\<exists>g'. make_move 1 2 ?g (5, 0) (4, 1) = Inr (True, g')" by blast
  then obtain g' where m: "make_move 1 2 ?g (5, 0) (4, 1) = Inr (True, g')" ..
  from t m have "wf_game g' \<and> update_game_status g' = g'" by blast
  ultimately show ?thesis using wf m by blast
qed

section \<open>Recorded occurrences and the move history\<close>

lemma sum_list_alist_update:
  "distinct (map fst al) \<Longrightarrow>
   sum_list (map snd (AList.update k v al)) = sum_list (map snd al) - dict_get al k 0 + (v :: int)"
proof (induction al)
  case Nil
  show ?case by (simp add: dict_get_def)
next
  case (Cons x xs)
  obtain a b where x: "x = (a, b)" by (cases x)
  show ?case
  proof (cases "a = k")
    case True
    then have "map_of xs k = None" using Cons.prems x by (simp add: map_of_eq_None_iff)
    then show ?thesis using True x by (simp add: dict_get_def)
  next
    case False
    then show ?thesis using Cons x by (simp add: dict_get_def)
  qed
qed

lemma update_position_history_count:
  assumes "distinct (map fst (position_history g))"
  shows "distinct (map fst (position_history (update_position_history g)))"
    and "sum_list (map snd (position_history (update_position_history g)))
           = sum_list (map snd (position_history g)) + 1"
  using assms
  by (simp_all add: update_position_history_def Let_def distinct_update sum_list_alist_update)

text \<open>
  Each successful \<open>make_move\<close> records one more occurrence and one more move; an
  \<open>undo_last_move\<close> that undoes a move removes the move and leaves the recorded
  occurrences as they are.
\<close>

lemma make_move_occurrences:
  assumes mm: "make_move now1 now2 g start end = Inr (True, g')"
    and d: "distinct (map fst (position_history g))"
  shows "distinct (map fst (position_history g'))"
    and "sum_list (map snd (position_history g')) = sum_list (map snd (position_history g)) + 1"
    and "length (move_history g') = length (move_history g) + 1"
proof -
  from make_move_any[OF mm] obtain m g1 where g': "g' = update_game_after_move now2 g1 m"
    and h: "move_history g1 = move_history g" and ph: "position_history g1 = position_history g"
    by auto
  let ?x = "g1\<lparr>move_history := move_history g1 @ [m],
               red_turn_time := (if current_player_index g1 = 0
                 then red_turn_time g1 + turn_duration m else red_turn_time g1),
               black_turn_time := (if current_player_index g1 = 0
                 then black_turn_time g1 else black_turn_time g1 + turn_duration m),
               turn_start_time := now2,
               current_player_index := 1 - current_player_index g1\<rparr>"
  have u: "position_history g' = position_history (update_position_history ?x)"
    unfolding g' update_game_after_move_def Let_def by simp
  have dx: "distinct (map fst (position_history ?x))" using d ph by simp
  show "distinct (map fst (position_history g'))"
    using update_position_history_count(1)[OF dx] u by simp
  show "sum_list (map snd (position_history g')) = sum_list (map snd (position_history g)) + 1"
    using update_position_history_count(2)[OF dx] u ph by simp
  show "length (move_history g') = length (move_history g) + 1" using g' h by simp
qed

lemma undo_last_move_occurrences:
  assumes u: "undo_last_move now g = Inr g'" and h: "move_history g \<noteq> []"
  shows "position_history g' = position_history g"
    and "length (move_history g') + 1 = length (move_history g)"
  using undo_last_move_any[OF u] h by auto

text \<open>
  Claim C3. The recorded occurrences of all positions sum to the length of the move history
  plus 1 in the opening position and after every \<open>make_move\<close>, but not after
  \<open>undo_last_move\<close>, which pops the move and leaves the occurrences recorded: in the
  opening position, after the move from (5, 0) to (4, 1) and its undoing, the history is
  empty and the occurrences sum to 2. Making and undoing the same move twice and making it
  a third time ends in the draw by threefold repetition, with one move in the history.
\<close>

theorem undo_keeps_occurrences:
  "(\<exists>g1 g2. make_move 1 2 (new_game 0) (5, 0) (4, 1) = Inr (True, g1)
       \<and> undo_last_move 3 g1 = Inr g2
       \<and> move_history g2 = [] \<and> sum_list (map snd (position_history g2)) = 2
       \<and> sum_list (map snd (position_history g2)) \<noteq> int (length (move_history g2)) + 1)
   \<and> (\<exists>g1 g2 g3 g4 g5. make_move 1 2 (new_game 0) (5, 0) (4, 1) = Inr (True, g1)
       \<and> undo_last_move 3 g1 = Inr g2
       \<and> make_move 4 5 g2 (5, 0) (4, 1) = Inr (True, g3)
       \<and> undo_last_move 6 g3 = Inr g4
       \<and> make_move 7 8 g4 (5, 0) (4, 1) = Inr (True, g5)
       \<and> length (move_history g5) = 1
       \<and> game_state g5 = ''draw by threefold repetition'')"
proof -
  let ?g1 = "snd (projr (make_move 1 2 (new_game 0) (5, 0) (4, 1)))"
  let ?g2 = "projr (undo_last_move 3 ?g1)"
  let ?g3 = "snd (projr (make_move 4 5 ?g2 (5, 0) (4, 1)))"
  let ?g4 = "projr (undo_last_move 6 ?g3)"
  let ?g5 = "snd (projr (make_move 7 8 ?g4 (5, 0) (4, 1)))"
  have s1: "make_move 1 2 (new_game 0) (5, 0) (4, 1) = Inr (True, ?g1)" by code_simp
  have "case undo_last_move 3 ?g1 of
          Inl e \<Rightarrow> False
        | Inr g \<Rightarrow> move_history g = [] \<and> sum_list (map snd (position_history g)) = 2"
    by code_simp
  then have s2: "undo_last_move 3 ?g1 = Inr ?g2" and h2: "move_history ?g2 = []"
    and c2: "sum_list (map snd (position_history ?g2)) = 2"
    by (cases "undo_last_move 3 ?g1"; simp)+
  have s3: "make_move 4 5 ?g2 (5, 0) (4, 1) = Inr (True, ?g3)" by code_simp
  have s4: "undo_last_move 6 ?g3 = Inr ?g4" by code_simp
  have "case make_move 7 8 ?g4 (5, 0) (4, 1) of
          Inl e \<Rightarrow> False
        | Inr r \<Rightarrow> fst r \<and> length (move_history (snd r)) = 1
                   \<and> game_state (snd r) = ''draw by threefold repetition''"
    by code_simp
  then have s5: "make_move 7 8 ?g4 (5, 0) (4, 1) = Inr (True, ?g5)"
    and h5: "length (move_history ?g5) = 1"
    and d5: "game_state ?g5 = ''draw by threefold repetition''"
    by (cases "make_move 7 8 ?g4 (5, 0) (4, 1)"; auto)+
  have ne: "sum_list (map snd (position_history ?g2)) \<noteq> int (length (move_history ?g2)) + 1"
    using h2 c2 by simp
  have a: "\<exists>g1 g2. make_move 1 2 (new_game 0) (5, 0) (4, 1) = Inr (True, g1)
       \<and> undo_last_move 3 g1 = Inr g2
       \<and> move_history g2 = [] \<and> sum_list (map snd (position_history g2)) = 2
       \<and> sum_list (map snd (position_history g2)) \<noteq> int (length (move_history g2)) + 1"
    using s1 s2 h2 c2 ne by blast
  have b: "\<exists>g1 g2 g3 g4 g5. make_move 1 2 (new_game 0) (5, 0) (4, 1) = Inr (True, g1)
       \<and> undo_last_move 3 g1 = Inr g2
       \<and> make_move 4 5 g2 (5, 0) (4, 1) = Inr (True, g3)
       \<and> undo_last_move 6 g3 = Inr g4
       \<and> make_move 7 8 g4 (5, 0) (4, 1) = Inr (True, g5)
       \<and> length (move_history g5) = 1
       \<and> game_state g5 = ''draw by threefold repetition''"
    using s1 s2 s3 s4 s5 h5 d5 by blast
  show ?thesis using a b by (rule conjI)
qed

section \<open>Undoing a move on a well-formed board\<close>

lemma set_piece_at_put:
  "wf_board (board g) \<Longrightarrow> in_bounds (fst sq) (snd sq) \<Longrightarrow>
   set_piece_at g sq v = Inr (g\<lparr>board := put_cell (board g) (fst sq) (snd sq) v\<rparr>)"
  using set_piece_at_wf[of g "fst sq" "snd sq" v] by simp

lemma undo_restore_piece_wf:
  assumes wf: "wf_board (board g)" and s: "in_bounds (fst (start_coords m)) (snd (start_coords m))"
    and e: "in_bounds (fst (end_coords m)) (snd (end_coords m))"
  shows "undo_restore_piece g m =
    Inr (g\<lparr>board :=
      put_cell
        (put_cell (board g) (fst (start_coords m)) (snd (start_coords m))
           (Some (if is_promotion m then Man (is_player1 (piece_moved m)) else piece_moved m)))
        (fst (end_coords m)) (snd (end_coords m)) None\<rparr>)"
proof -
  have twice: "put_cell (put_cell b r c v) r c w = put_cell b r c w" for b r c v w
    by (cases "nat r < length b") (simp_all add: put_cell_def list_update_beyond)
  show ?thesis
    using wf s e
    by (simp add: undo_restore_piece_def set_piece_at_put wf_board_put_cell twice)
qed

lemma undo_restore_captured_wf:
  assumes wf: "wf_board (board g)" and s: "in_bounds (fst (start_coords m)) (snd (start_coords m))"
    and e: "in_bounds (fst (end_coords m)) (snd (end_coords m))"
    and ne: "piece_captured m \<noteq> None \<Longrightarrow>
       (if is_player1 (piece_moved m) then black_captured g else red_captured g) \<noteq> []"
  shows "undo_restore_captured g m =
    Inr (case piece_captured m of
           None \<Rightarrow> g
         | Some cp \<Rightarrow>
             g\<lparr>board := (if is_jump m
                         then put_cell (board g) ((fst (start_coords m) + fst (end_coords m)) div 2)
                                ((snd (start_coords m) + snd (end_coords m)) div 2) (Some cp)
                         else board g),
               red_captured := (if is_player1 (piece_moved m) then red_captured g
                                else butlast (red_captured g)),
               black_captured := (if is_player1 (piece_moved m) then butlast (black_captured g)
                                  else black_captured g)\<rparr>)"
proof (cases "piece_captured m")
  case None
  then show ?thesis by (simp add: undo_restore_captured_def)
next
  case (Some cp)
  have mid: "in_bounds ((fst (start_coords m) + fst (end_coords m)) div 2)
      ((snd (start_coords m) + snd (end_coords m)) div 2)"
    using s e by (rule in_bounds_mid)
  show ?thesis
    using Some wf mid ne
    by (cases "is_player1 (piece_moved m)"; cases "is_jump m")
       (simp_all add: undo_restore_captured_def set_piece_at_put pop_captured_def)
qed

section \<open>Legal moves\<close>

lemma diagonal_step_cases:
  assumes "e \<in> set (diagonal_step p b s d)"
  shows "in_bounds (fst e) (snd e) \<and> cell b (fst e) (snd e) = None
     \<and> (e = (fst s + fst d, snd s + snd d)
        \<or> (e = (fst s + 2 * fst d, snd s + 2 * snd d)
            \<and> in_bounds (fst s + fst d) (snd s + snd d)
            \<and> (\<exists>q. cell b (fst s + fst d) (snd s + snd d) = Some q
                    \<and> is_player1 q \<noteq> is_player1 p)))"
  using assms
  by (auto simp: diagonal_step_def Let_def is_enemy_def split: if_splits option.splits)

lemma get_diagonal_moves_set:
  "set (get_diagonal_moves p b s ds) = (\<Union>d \<in> set ds. set (diagonal_step p b s d))"
  by (induction ds) auto

lemma directions_unit: "d \<in> set (directions p) \<Longrightarrow> \<bar>fst d\<bar> = 1 \<and> \<bar>snd d\<bar> = 1"
  by (cases p) (auto split: if_splits)

lemma get_moves_cases:
  assumes "e \<in> set (get_moves p b s)"
  shows "\<exists>dr dc. \<bar>dr\<bar> = 1 \<and> \<bar>dc\<bar> = 1
     \<and> in_bounds (fst e) (snd e) \<and> cell b (fst e) (snd e) = None
     \<and> (e = (fst s + dr, snd s + dc)
        \<or> (e = (fst s + 2 * dr, snd s + 2 * dc)
            \<and> in_bounds (fst s + dr) (snd s + dc)
            \<and> (\<exists>q. cell b (fst s + dr) (snd s + dc) = Some q \<and> is_player1 q \<noteq> is_player1 p)))"
proof -
  from assms obtain d where d: "d \<in> set (directions p)" and e: "e \<in> set (diagonal_step p b s d)"
    by (auto simp: get_moves_def get_diagonal_moves_set)
  from directions_unit[OF d] diagonal_step_cases[OF e] show ?thesis by blast
qed

lemma legal_moves_generated:
  assumes wf: "wf_game g" and s: "in_bounds (fst start) (snd start)"
    and l: "get_legal_moves_for_piece g start = Inr moves" and e: "e \<in> set moves"
  shows "\<exists>p. get_piece_at g start = Inr (Some p)
     \<and> is_player1 p = player_is_player1 (get_current_player g)
     \<and> e \<in> set (get_moves p (board g) start)"
proof -
  have wfb: "wf_board (board g)" using wf by (simp add: wf_game_def)
  have rd: "get_piece_at g start = Inr (cell (board g) (fst start) (snd start))"
    by (rule get_piece_at_cell[OF wfb s])
  from l rd have m: "moves = legal_moves_at g (cell (board g) (fst start) (snd start)) start"
    by (simp add: get_legal_moves_for_piece_def)
  show ?thesis
  proof (cases "cell (board g) (fst start) (snd start)")
    case None
    with m e show ?thesis by (simp add: legal_moves_at_def)
  next
    case (Some p)
    show ?thesis
    proof (cases "is_player1 p = player_is_player1 (get_current_player g)")
      case False
      with m e Some show ?thesis by (simp add: legal_moves_at_def)
    next
      case True
      have "set moves \<subseteq> set (get_moves p (board g) start)"
      proof (cases "get_all_jumps_for_player g (get_current_player g) = []")
        case True
        with m Some \<open>is_player1 p = _\<close> show ?thesis by (simp add: legal_moves_at_def)
      next
        case False
        have "map snd (filter (\<lambda>m. fst m = start)
                (get_all_jumps_for_player g (get_current_player g)))
            = filter (\<lambda>d. \<bar>fst start - fst d\<bar> = 2) (get_moves p (board g) start)"
          using s Some True
          by (simp add: get_all_jumps_for_player_def all_jumps_loop_at[OF distinct_iterate_squares]
              set_iterate_squares)
        with m Some True False show ?thesis by (simp add: legal_moves_at_def Let_def)
      qed
      with e rd Some True show ?thesis by auto
    qed
  qed
qed

text \<open>The shape of a legal move: one step to an empty square, or two over an enemy piece.\<close>

lemma legal_move_shape:
  assumes wf: "wf_game g" and s: "in_bounds (fst start) (snd start)"
    and l: "get_legal_moves_for_piece g start = Inr moves" and e: "end \<in> set moves"
  shows "\<exists>p. get_piece_at g start = Inr (Some p)
     \<and> is_player1 p = player_is_player1 (get_current_player g)
     \<and> in_bounds (fst end) (snd end) \<and> cell (board g) (fst end) (snd end) = None
     \<and> start \<noteq> end
     \<and> (fst end + snd end) mod 2 = (fst start + snd start) mod 2
     \<and> (\<bar>fst start - fst end\<bar> = 2 \<longrightarrow>
          ((fst start + fst end) div 2 + (snd start + snd end) div 2) mod 2
             = (fst start + snd start) mod 2
          \<and> (\<exists>q. cell (board g) ((fst start + fst end) div 2) ((snd start + snd end) div 2) = Some q))"
proof -
  from legal_moves_generated[OF wf s l e] obtain p where
    p: "get_piece_at g start = Inr (Some p)"
      "is_player1 p = player_is_player1 (get_current_player g)"
    and g: "end \<in> set (get_moves p (board g) start)" by blast
  from get_moves_cases[OF g] obtain dr dc where d: "\<bar>dr\<bar> = 1" "\<bar>dc\<bar> = 1"
    and ib: "in_bounds (fst end) (snd end)" and emp: "cell (board g) (fst end) (snd end) = None"
    and sh: "end = (fst start + dr, snd start + dc)
        \<or> (end = (fst start + 2 * dr, snd start + 2 * dc)
            \<and> (\<exists>q. cell (board g) (fst start + dr) (snd start + dc) = Some q
                   \<and> is_player1 q \<noteq> is_player1 p))"
    by blast
  have ne: "start \<noteq> end" using sh d by (cases start) auto
  have par: "(fst end + snd end) mod 2 = (fst start + snd start) mod 2"
    using sh d by (cases start) (auto; presburger)+
  have j: "\<bar>fst start - fst end\<bar> = 2 \<longrightarrow>
          ((fst start + fst end) div 2 + (snd start + snd end) div 2) mod 2
             = (fst start + snd start) mod 2
          \<and> (\<exists>q. cell (board g) ((fst start + fst end) div 2) ((snd start + snd end) div 2) = Some q)"
  proof
    assume a: "\<bar>fst start - fst end\<bar> = 2"
    with sh d have e2: "end = (fst start + 2 * dr, snd start + 2 * dc)"
      and q: "\<exists>q. cell (board g) (fst start + dr) (snd start + dc) = Some q"
      by auto
    have m: "(fst start + fst end) div 2 = fst start + dr" "(snd start + snd end) div 2 = snd start + dc"
      using e2 by simp_all
    have "(fst start + dr + (snd start + dc)) mod 2 = (fst start + snd start) mod 2"
      using d by presburger
    then show "((fst start + fst end) div 2 + (snd start + snd end) div 2) mod 2
             = (fst start + snd start) mod 2
          \<and> (\<exists>q. cell (board g) ((fst start + fst end) div 2) ((snd start + snd end) div 2) = Some q)"
      using q by (simp add: m)
  qed
  show ?thesis using p ib emp ne par j by blast
qed

section \<open>A move and its undoing on the board\<close>

lemma round_trip_board:
  assumes wf: "wf_board b" and s: "in_bounds sr sc" and e: "in_bounds er ec" and m: "in_bounds mr mc"
    and ne: "(sr, sc) \<noteq> (er, ec)"
    and ms: "J \<Longrightarrow> (mr, mc) \<noteq> (sr, sc)" and me: "J \<Longrightarrow> (mr, mc) \<noteq> (er, ec)"
    and ps: "cell b sr sc = Some p" and emp: "cell b er ec = None"
    and b0: "b0 = (if J then put_cell b mr mc None else b)"
    and b1: "b1 = put_cell (put_cell b0 er ec x) sr sc None"
    and b2: "b2 = put_cell (put_cell b1 sr sc (Some p)) er ec None"
    and b3: "b3 = (if J then put_cell b2 mr mc (cell b mr mc) else b2)"
  shows "b3 = b"
proof (rule board_eqI)
  define b0e where "b0e = put_cell b0 er ec x"
  define b1s where "b1s = put_cell b1 sr sc (Some p)"
  have b1': "b1 = put_cell b0e sr sc None" by (simp add: b1 b0e_def)
  have b2': "b2 = put_cell b1s er ec None" by (simp add: b2 b1s_def)
  have w0: "wf_board b0" using wf by (simp add: b0 wf_board_put_cell)
  have w0e: "wf_board b0e" using w0 by (simp add: b0e_def wf_board_put_cell)
  have w1: "wf_board b1" using w0e by (simp add: b1' wf_board_put_cell)
  have w1s: "wf_board b1s" using w1 by (simp add: b1s_def wf_board_put_cell)
  have w2: "wf_board b2" using w1s by (simp add: b2' wf_board_put_cell)
  show "wf_board b3" using w2 by (simp add: b3 wf_board_put_cell)
  show "wf_board b" by (rule wf)
  fix r c assume rc: "in_bounds r c"
  have c0: "cell b0 r c = (if J \<and> r = mr \<and> c = mc then None else cell b r c)"
    by (cases J) (simp_all add: b0 cell_put_cell[OF wf m rc])
  have c0e: "cell b0e r c = (if r = er \<and> c = ec then x else cell b0 r c)"
    unfolding b0e_def by (rule cell_put_cell[OF w0 e rc])
  have c1: "cell b1 r c = (if r = sr \<and> c = sc then None else cell b0e r c)"
    unfolding b1' by (rule cell_put_cell[OF w0e s rc])
  have c1s: "cell b1s r c = (if r = sr \<and> c = sc then Some p else cell b1 r c)"
    unfolding b1s_def by (rule cell_put_cell[OF w1 s rc])
  have c2: "cell b2 r c = (if r = er \<and> c = ec then None else cell b1s r c)"
    unfolding b2' by (rule cell_put_cell[OF w1s e rc])
  have c3: "cell b3 r c = (if J \<and> r = mr \<and> c = mc then cell b mr mc else cell b2 r c)"
    by (cases J) (simp_all add: b3 cell_put_cell[OF w2 m rc])
  show "cell b3 r c = cell b r c"
  proof (cases "J \<and> r = mr \<and> c = mc")
    case True
    then show ?thesis using c3 by auto
  next
    case nm: False
    show ?thesis
    proof (cases "r = er \<and> c = ec")
      case True
      then show ?thesis using nm emp c3 c2 by auto
    next
      case nend: False
      show ?thesis
      proof (cases "r = sr \<and> c = sc")
        case True
        then show ?thesis using nm nend ps c3 c2 c1s by auto
      next
        case False
        then show ?thesis using nm nend c3 c2 c1s c1 c0e c0 by auto
      qed
    qed
  qed
qed

lemma execute_board_move_result:
  assumes wf: "wf_board (board g)" and s: "in_bounds (fst start) (snd start)"
    and e: "in_bounds (fst end) (snd end)"
    and ex: "execute_board_move g p start end el = Inr (m, g1)"
  shows "piece_moved m = p" and "start_coords m = start" and "end_coords m = end"
    and "piece_captured m =
         (if \<bar>fst start - fst end\<bar> = 2
          then cell (board g) ((fst start + fst end) div 2) ((snd start + snd end) div 2) else None)"
    and "is_promotion m =
         (case p of Man p1 \<Rightarrow> (p1 \<and> fst end = 0) \<or> (\<not> p1 \<and> fst end = 7) | King p1 \<Rightarrow> False)"
    and "board g1 =
         put_cell
           (put_cell
              (if \<bar>fst start - fst end\<bar> = 2
               then put_cell (board g) ((fst start + fst end) div 2) ((snd start + snd end) div 2) None
               else board g)
              (fst end) (snd end) (Some (if is_promotion m then King (is_player1 p) else p)))
           (fst start) (snd start) None"
    and "red_captured g1 =
         (case piece_captured m of None \<Rightarrow> red_captured g
          | Some cp \<Rightarrow> if is_player1 p then red_captured g else red_captured g @ [cp])"
    and "black_captured g1 =
         (case piece_captured m of None \<Rightarrow> black_captured g
          | Some cp \<Rightarrow> if is_player1 p then black_captured g @ [cp] else black_captured g)"
    and "move_history g1 = move_history g" and "current_player_index g1 = current_player_index g"
    and "red_turn_time g1 = red_turn_time g" and "black_turn_time g1 = black_turn_time g"
    and "turn_duration m = el"
proof -
  from execute_board_move_fields[OF wf s e, of p el]
  obtain m' g1' where ex': "execute_board_move g p start end el = Inr (m', g1')"
    and c: "piece_moved m' = p \<and> start_coords m' = start \<and> end_coords m' = end \<and> turn_duration m' = el
     \<and> piece_captured m' =
         (if \<bar>fst start - fst end\<bar> = 2
          then cell (board g) ((fst start + fst end) div 2) ((snd start + snd end) div 2) else None)
     \<and> is_promotion m' =
         (case p of Man p1 \<Rightarrow> (p1 \<and> fst end = 0) \<or> (\<not> p1 \<and> fst end = 7) | King p1 \<Rightarrow> False)
     \<and> promoted_piece m' = (if is_promotion m' then Some (King (is_player1 p)) else None)
     \<and> captured_coords m' =
         (if \<bar>fst start - fst end\<bar> = 2
          then ((fst start + fst end) div 2, (snd start + snd end) div 2) else end)
     \<and> board g1' =
         put_cell
           (put_cell
              (if \<bar>fst start - fst end\<bar> = 2
               then put_cell (board g) ((fst start + fst end) div 2) ((snd start + snd end) div 2) None
               else board g)
              (fst end) (snd end) (Some (if is_promotion m' then King (is_player1 p) else p)))
           (fst start) (snd start) None
     \<and> red_captured g1' =
         (case piece_captured m' of None \<Rightarrow> red_captured g
          | Some cp \<Rightarrow> if is_player1 p then red_captured g else red_captured g @ [cp])
     \<and> black_captured g1' =
         (case piece_captured m' of None \<Rightarrow> black_captured g
          | Some cp \<Rightarrow> if is_player1 p then black_captured g @ [cp] else black_captured g)
     \<and> current_player_index g1' = current_player_index g \<and> game_state g1' = game_state g
     \<and> move_history g1' = move_history g \<and> turn_start_time g1' = turn_start_time g
     \<and> red_turn_time g1' = red_turn_time g \<and> black_turn_time g1' = black_turn_time g
     \<and> position_history g1' = position_history g"
    by blast
  from ex ex' have eq: "m' = m" "g1' = g1" by simp_all
  note c' = c[unfolded eq]
  show "piece_moved m = p" using c' by (elim conjE)
  show "start_coords m = start" using c' by (elim conjE)
  show "end_coords m = end" using c' by (elim conjE)
  show "piece_captured m =
         (if \<bar>fst start - fst end\<bar> = 2
          then cell (board g) ((fst start + fst end) div 2) ((snd start + snd end) div 2) else None)"
    using c' by (elim conjE)
  show "is_promotion m =
         (case p of Man p1 \<Rightarrow> (p1 \<and> fst end = 0) \<or> (\<not> p1 \<and> fst end = 7) | King p1 \<Rightarrow> False)"
    using c' by (elim conjE)
  show "board g1 =
         put_cell
           (put_cell
              (if \<bar>fst start - fst end\<bar> = 2
               then put_cell (board g) ((fst start + fst end) div 2) ((snd start + snd end) div 2) None
               else board g)
              (fst end) (snd end) (Some (if is_promotion m then King (is_player1 p) else p)))
           (fst start) (snd start) None"
    using c' by (elim conjE)
  show "red_captured g1 =
         (case piece_captured m of None \<Rightarrow> red_captured g
          | Some cp \<Rightarrow> if is_player1 p then red_captured g else red_captured g @ [cp])"
    using c' by (elim conjE)
  show "black_captured g1 =
         (case piece_captured m of None \<Rightarrow> black_captured g
          | Some cp \<Rightarrow> if is_player1 p then black_captured g @ [cp] else black_captured g)"
    using c' by (elim conjE)
  show "move_history g1 = move_history g" using c' by (elim conjE)
  show "current_player_index g1 = current_player_index g" using c' by (elim conjE)
  show "red_turn_time g1 = red_turn_time g" using c' by (elim conjE)
  show "black_turn_time g1 = black_turn_time g" using c' by (elim conjE)
  show "turn_duration m = el" using c' by (elim conjE)
qed

section \<open>Undo after a legal move\<close>

text \<open>
  Claim C2. For a well-formed state and a legal move (an element of what
  \<open>get_legal_moves_for_piece\<close> returns for a square of the board), \<open>make_move\<close> succeeds,
  the \<open>undo_last_move\<close> that follows succeeds, and the state it returns has the board, the
  side to move, both turn-time counters, the move history and both captured lists of the
  state before the move; this covers simple moves, captures and promotions, where the man
  is back on its start square.
\<close>

theorem undo_round_trip:
  assumes wf: "wf_game g" and s: "in_bounds (fst start) (snd start)"
    and l: "get_legal_moves_for_piece g start = Inr moves" and e: "end \<in> set moves"
  shows "\<exists>g1 g2. make_move now1 now2 g start end = Inr (True, g1)
     \<and> undo_last_move now3 g1 = Inr g2
     \<and> board g2 = board g \<and> current_player_index g2 = current_player_index g
     \<and> red_turn_time g2 = red_turn_time g \<and> black_turn_time g2 = black_turn_time g
     \<and> move_history g2 = move_history g
     \<and> red_captured g2 = red_captured g \<and> black_captured g2 = black_captured g"
proof -
  have wfb: "wf_board (board g)" using wf by (simp add: wf_game_def)
  let ?b = "board g"
  let ?sr = "fst start" and ?sc = "snd start" and ?er = "fst end" and ?ec = "snd end"
  let ?mr = "(fst start + fst end) div 2" and ?mc = "(snd start + snd end) div 2"
  let ?jump = "\<bar>fst start - fst end\<bar> = 2"
  from legal_move_shape[OF wf s l e] obtain p where
    p: "get_piece_at g start = Inr (Some p)"
    and side: "is_player1 p = player_is_player1 (get_current_player g)"
    and ib: "in_bounds ?er ?ec" and emp: "cell ?b ?er ?ec = None" and ne: "start \<noteq> end"
    and jq: "?jump \<longrightarrow> (\<exists>q. cell ?b ?mr ?mc = Some q)"
    by blast
  have ps: "cell ?b ?sr ?sc = Some p" using p get_piece_at_cell[OF wfb s] by simp
  have mb: "in_bounds ?mr ?mc" using s ib by (rule in_bounds_mid)
  have idx: "is_player1 p \<longleftrightarrow> current_player_index g = 0"
    using side current_player_wf[OF wf] by simp
  from make_move_executes[OF wf s ib p side, of now1 now2]
  obtain m g1 where
    ex: "execute_board_move g p start end (now1 - turn_start_time g) = Inr (m, g1)"
    and mm: "make_move now1 now2 g start end = Inr (True, update_game_after_move now2 g1 m)"
    by blast
  note f = execute_board_move_result[OF wfb s ib ex]
  have man: "(if is_promotion m then Man (is_player1 (piece_moved m)) else piece_moved m) = p"
    using f(1,5) by (cases p) auto
  have jm: "is_jump m \<longleftrightarrow> ?jump" using f by (simp add: is_jump_def)
  have wf1: "wf_board (board g1)" using wfb by (simp add: f(6) wf_board_put_cell)
  let ?g1 = "update_game_after_move now2 g1 m"
  let ?g0 = "?g1\<lparr>move_history := butlast (move_history ?g1)\<rparr>"
  have wf0: "wf_board (board ?g0)" using wf1 by simp
  have s0: "in_bounds (fst (start_coords m)) (snd (start_coords m))" using s f by simp
  have e0: "in_bounds (fst (end_coords m)) (snd (end_coords m))" using ib f by simp
  let ?ga = "?g0\<lparr>board := put_cell (put_cell (board g1) ?sr ?sc (Some p)) ?er ?ec None\<rparr>"
  have ra: "undo_restore_piece ?g0 m = Inr ?ga"
    using undo_restore_piece_wf[OF wf0 s0 e0] man f(2,3) by simp
  have wfa: "wf_board (board ?ga)" using wf1 by (simp add: wf_board_put_cell)
  have nea: "piece_captured m \<noteq> None \<Longrightarrow>
       (if is_player1 (piece_moved m) then black_captured ?ga else red_captured ?ga) \<noteq> []"
  proof -
    assume "piece_captured m \<noteq> None"
    then obtain cp where cp: "piece_captured m = Some cp" by auto
    have "black_captured ?ga = black_captured g1" "red_captured ?ga = red_captured g1" by simp_all
    then show ?thesis using cp f(1) f(7) f(8) by (cases "is_player1 p") simp_all
  qed
  from undo_restore_captured_wf[OF wfa s0 e0 nea]
  obtain gb where rb: "undo_restore_captured ?ga m = Inr gb"
    and gb: "gb = (case piece_captured m of
           None \<Rightarrow> ?ga
         | Some cp \<Rightarrow>
             ?ga\<lparr>board := (if is_jump m
                         then put_cell (board ?ga) ((fst (start_coords m) + fst (end_coords m)) div 2)
                                ((snd (start_coords m) + snd (end_coords m)) div 2) (Some cp)
                         else board ?ga),
               red_captured := (if is_player1 (piece_moved m) then red_captured ?ga
                                else butlast (red_captured ?ga)),
               black_captured := (if is_player1 (piece_moved m) then butlast (black_captured ?ga)
                                  else black_captured ?ga)\<rparr>)"
    by blast
  let ?g2 = "undo_bookkeeping now3 gb m"
  have hist: "move_history ?g1 \<noteq> []" "last (move_history ?g1) = m" by simp_all
  have un: "undo_last_move now3 ?g1 = Inr ?g2"
    using hist ra rb by (simp add: undo_last_move_def Let_def)
  have gaf: "move_history ?ga = move_history g" "current_player_index ?ga = 1 - current_player_index g"
    "red_turn_time ?ga = (if current_player_index g = 0 then red_turn_time g + turn_duration m
                         else red_turn_time g)"
    "black_turn_time ?ga = (if current_player_index g = 0 then black_turn_time g
                           else black_turn_time g + turn_duration m)"
    "red_captured ?ga = red_captured g1" "black_captured ?ga = black_captured g1"
    "board ?ga = put_cell (put_cell (board g1) ?sr ?sc (Some p)) ?er ?ec None"
    using f(9) f(10) f(11) f(12) by simp_all
  have gbf: "move_history gb = move_history g" "current_player_index gb = 1 - current_player_index g"
    "red_turn_time gb = (if current_player_index g = 0 then red_turn_time g + turn_duration m
                         else red_turn_time g)"
    "black_turn_time gb = (if current_player_index g = 0 then black_turn_time g
                           else black_turn_time g + turn_duration m)"
    using gaf(1-4) unfolding gb by (cases "piece_captured m"; simp)+
  have cgb: "red_captured gb = red_captured g" "black_captured gb = black_captured g"
  proof -
    show "red_captured gb = red_captured g"
      using gaf(5) f(1) f(7) unfolding gb
      by (cases "piece_captured m"; cases "is_player1 p"; simp)
    show "black_captured gb = black_captured g"
      using gaf(6) f(1) f(8) unfolding gb
      by (cases "piece_captured m"; cases "is_player1 p"; simp)
  qed
  have bgb: "board gb = (if ?jump
        then put_cell (put_cell (put_cell (board g1) ?sr ?sc (Some p)) ?er ?ec None) ?mr ?mc
               (cell ?b ?mr ?mc)
        else put_cell (put_cell (board g1) ?sr ?sc (Some p)) ?er ?ec None)"
  proof (cases ?jump)
    case True
    with jq obtain q where q: "cell ?b ?mr ?mc = Some q" by blast
    then have "piece_captured m = Some q" using f(4) True by simp
    then show ?thesis using True q jm gaf(7) f(2) f(3) unfolding gb by simp
  next
    case False
    then have "piece_captured m = None" using f(4) by simp
    then show ?thesis using False gaf(7) unfolding gb by simp
  qed
  have ms: "?jump \<Longrightarrow> (?mr, ?mc) \<noteq> (?sr, ?sc)" and me: "?jump \<Longrightarrow> (?mr, ?mc) \<noteq> (?er, ?ec)"
    by (cases start; cases "end"; auto)+
  have ne': "(?sr, ?sc) \<noteq> (?er, ?ec)" using ne by (cases start; cases "end") simp
  have brd: "board gb = ?b"
    by (rule round_trip_board[OF wfb s ib mb ne' ms me ps emp refl f(6) refl bgb])
  have t2: "board ?g2 = ?b" "current_player_index ?g2 = current_player_index g"
    "red_turn_time ?g2 = red_turn_time g" "black_turn_time ?g2 = black_turn_time g"
    "move_history ?g2 = move_history g"
    "red_captured ?g2 = red_captured g" "black_captured ?g2 = black_captured g"
    using brd gbf cgb f(1) idx
    by (cases "is_player1 p"; simp add: undo_bookkeeping_def Let_def)+
  show ?thesis using mm un t2 by blast
qed

theorem undo_round_trip_witness:
  "wf_game promotion_position \<and> in_bounds 2 3
   \<and> get_legal_moves_for_piece promotion_position (2, 3) = Inr [(0, 1)]
   \<and> (0, 1) \<in> set [(0, 1) :: coords]
   \<and> (\<exists>g1 g2. make_move 1 2 promotion_position (2, 3) (0, 1) = Inr (True, g1)
         \<and> undo_last_move 3 g1 = Inr g2
         \<and> board g2 = board promotion_position
         \<and> current_player_index g2 = current_player_index promotion_position
         \<and> red_turn_time g2 = red_turn_time promotion_position
         \<and> black_turn_time g2 = black_turn_time promotion_position
         \<and> move_history g2 = move_history promotion_position
         \<and> red_captured g2 = red_captured promotion_position
         \<and> black_captured g2 = black_captured promotion_position)"
proof -
  have wf: "wf_game promotion_position" by code_simp
  have s: "in_bounds (fst (2, 3)) (snd (2, 3))" by code_simp
  have l: "get_legal_moves_for_piece promotion_position (2, 3) = Inr [(0, 1)]" by code_simp
  have e: "(0, 1) \<in> set [(0, 1) :: coords]" by simp
  from undo_round_trip[OF wf s l e, of 1 2 3] wf s l e show ?thesis by simp
qed

section \<open>Pieces stay on the squares with odd row + column\<close>

lemma py_index_parity:
  assumes "py_index xs i = Inr k" "length xs = 8"
  shows "k < 8" "int k mod 2 = i mod 2"
  using assms by (auto simp: py_index_def Let_def split: if_splits) presburger+

lemma set_piece_at_odd_squares:
  assumes sp: "set_piece_at g sq v = Inr g'" and wf: "wf_board (board g)"
    and od: "odd_squares (board g)"
    and par: "v \<noteq> None \<longrightarrow> (fst sq + snd sq) mod 2 = 1"
  shows "odd_squares (board g')"
proof -
  from sp obtain i j where i: "py_index (board g) (fst sq) = Inr i"
    and j: "py_index (board g ! i) (snd sq) = Inr j"
    and g': "board g' = (board g)[i := (board g ! i)[j := v]]"
    by (auto simp: set_piece_at_def bindE_eq_Inr)
  have l: "length (board g) = 8" using wf by (simp add: wf_board_def)
  note pi = py_index_parity[OF i l]
  have li: "length (board g ! i) = 8" using wf pi(1) by (simp add: wf_board_def list_all_length)
  note pj = py_index_parity[OF j li]
  show ?thesis
    unfolding odd_squares_def
  proof (intro allI impI)
    fix r c assume a: "in_bounds r c \<and> cell (board g') r c \<noteq> None"
    then have rc: "0 \<le> r" "r < 8" "0 \<le> c" "c < 8" by (simp_all add: in_bounds_def BOARD_DIMENSION_def)
    show "(r + c) mod 2 = 1"
    proof (cases "nat r = i \<and> nat c = j")
      case True
      then have "cell (board g') r c = v" using l li pi(1) pj(1) by (simp add: cell_def g')
      then have "(fst sq + snd sq) mod 2 = 1" using a par by simp
      moreover have "r mod 2 = fst sq mod 2" "c mod 2 = snd sq mod 2"
        using True pi(2) pj(2) rc by auto
      ultimately show ?thesis by presburger
    next
      case False
      then have "cell (board g') r c = cell (board g) r c"
        using l pi(1) by (auto simp: cell_def g' nth_list_update)
      then show ?thesis using a od by (simp add: odd_squares_def)
    qed
  qed
qed

lemma get_piece_at_parity:
  assumes gp: "get_piece_at g sq = Inr (Some p)" and wf: "wf_board (board g)"
    and od: "odd_squares (board g)"
  shows "(fst sq + snd sq) mod 2 = 1"
proof -
  from gp obtain i j where i: "py_index (board g) (fst sq) = Inr i"
    and j: "py_index (board g ! i) (snd sq) = Inr j"
    and v: "board g ! i ! j = Some p"
    by (auto simp: get_piece_at_def bindE_eq_Inr)
  have l: "length (board g) = 8" using wf by (simp add: wf_board_def)
  note pi = py_index_parity[OF i l]
  have li: "length (board g ! i) = 8" using wf pi(1) by (simp add: wf_board_def list_all_length)
  note pj = py_index_parity[OF j li]
  have "in_bounds (int i) (int j)" using pi(1) pj(1) by (simp add: in_bounds_def BOARD_DIMENSION_def)
  moreover have "cell (board g) (int i) (int j) = Some p" using v by (simp add: cell_def)
  ultimately have "(int i + int j) mod 2 = 1" using od by (simp add: odd_squares_def)
  then show ?thesis using pi(2) pj(2) by presburger
qed

lemma execute_board_move_coords:
  assumes ex: "execute_board_move g p start end el = Inr (m, g1)"
  shows "start_coords m = start \<and> end_coords m = end"
proof -
  have tail: "start_coords m = start \<and> end_coords m = end"
    if "bindE (set_piece_at g2 end v)
          (\<lambda>g3. bindE (set_piece_at g3 start None)
             (\<lambda>g4. Inr (Move p start end cp pr pp el cc, g4))) = Inr (m, g1)"
    for g2 v cp pr pp cc
    using that by (auto simp: bindE_eq_Inr Move_def)
  show ?thesis
  proof (cases "\<bar>fst start - fst end\<bar> = 2")
    case False
    from ex False show ?thesis
      unfolding execute_board_move_def Let_def by (simp add: tail)
  next
    case True
    from ex True show ?thesis
      unfolding execute_board_move_def Let_def
      by (simp add: bindE_eq_Inr) (auto simp: Move_def)
  qed
qed

lemma execute_board_move_odd:
  assumes ex: "execute_board_move g p start end el = Inr (m, g1)"
    and wf: "wf_board (board g)" and od: "odd_squares (board g)"
    and par: "(fst end + snd end) mod 2 = 1"
  shows "odd_squares (board g1)"
proof -
  define R where "R = (\<lambda>(a :: game) (b :: game).
     wf_board (board a) \<and> odd_squares (board a) \<longrightarrow> wf_board (board b) \<and> odd_squares (board b))"
  have trans: "R a b \<Longrightarrow> R b c \<Longrightarrow> R a c" for a b c by (simp add: R_def)
  have sp_none: "set_piece_at a c None = Inr b \<Longrightarrow> R a b" for a b c
    using set_piece_at_odd_squares[of a c None b] set_piece_at_wf_board[of a c None b]
    by (simp add: R_def)
  have sp_end: "set_piece_at a end v = Inr b \<Longrightarrow> R a b" for a b v
    using set_piece_at_odd_squares[of a "end" v b] set_piece_at_wf_board[of a "end" v b] par
    by (simp add: R_def)
  have cap: "R a (case cp of None \<Rightarrow> a
                    | Some c \<Rightarrow> if is_player1 p
                        then a\<lparr>black_captured := black_captured a @ [c]\<rparr>
                        else a\<lparr>red_captured := red_captured a @ [c]\<rparr>)" for a cp
    by (cases cp) (simp_all add: R_def)
  have tail: "R g2 g1"
    if "bindE (set_piece_at g2 end v) (\<lambda>g3. bindE (set_piece_at g3 start None) (\<lambda>g4. Inr (mv, g4)))
          = Inr (m, g1)" for g2 v mv
  proof -
    from that obtain g3 where "set_piece_at g2 end v = Inr g3" "set_piece_at g3 start None = Inr g1"
      by (auto simp: bindE_eq_Inr)
    then show ?thesis using sp_end sp_none trans by blast
  qed
  have "R g g1"
  proof (cases "\<bar>fst start - fst end\<bar> = 2")
    case False
    from ex False have "\<exists>v mv. bindE (set_piece_at g end v)
        (\<lambda>g3. bindE (set_piece_at g3 start None) (\<lambda>g4. Inr (mv, g4))) = Inr (m, g1)"
      unfolding execute_board_move_def Let_def by (simp add: bindE_eq_Inr) blast
    then show ?thesis using tail by blast
  next
    case True
    let ?cc = "((fst start + fst end) div 2, (snd start + snd end) div 2)"
    from ex True obtain cp ga where ga: "set_piece_at g ?cc None = Inr ga"
      and rest: "\<exists>v mv. bindE (set_piece_at
          (case cp of None \<Rightarrow> ga
           | Some c \<Rightarrow> if is_player1 p
               then ga\<lparr>black_captured := black_captured ga @ [c]\<rparr>
               else ga\<lparr>red_captured := red_captured ga @ [c]\<rparr>) end v)
        (\<lambda>g3. bindE (set_piece_at g3 start None) (\<lambda>g4. Inr (mv, g4))) = Inr (m, g1)"
      unfolding execute_board_move_def Let_def by (simp add: bindE_eq_Inr) blast
    from rest tail have "R (case cp of None \<Rightarrow> ga
           | Some c \<Rightarrow> if is_player1 p
               then ga\<lparr>black_captured := black_captured ga @ [c]\<rparr>
               else ga\<lparr>red_captured := red_captured ga @ [c]\<rparr>) g1"
      by blast
    with sp_none[OF ga] cap[of ga cp] show ?thesis using trans by blast
  qed
  then show ?thesis using wf od by (simp add: R_def)
qed

lemma legal_moves_generated_any:
  assumes l: "get_legal_moves_for_piece g start = Inr moves" and e: "e \<in> set moves"
  shows "\<exists>p q. get_piece_at g start = Inr (Some p) \<and> e \<in> set (get_moves q (board g) start)"
proof -
  from l obtain po where po: "get_piece_at g start = Inr po"
    and m: "moves = legal_moves_at g po start"
    by (auto simp: get_legal_moves_for_piece_def bindE_eq_Inr)
  show ?thesis
  proof (cases po)
    case None
    with m e show ?thesis by (simp add: legal_moves_at_def)
  next
    case (Some p)
    show ?thesis
    proof (cases "is_player1 p \<noteq> player_is_player1 (get_current_player g)")
      case True
      with m e Some show ?thesis by (simp add: legal_moves_at_def)
    next
      case side: False
      show ?thesis
      proof (cases "get_all_jumps_for_player g (get_current_player g) = []")
        case True
        with m e Some side have "e \<in> set (get_moves p (board g) start)"
          by (simp add: legal_moves_at_def)
        with po Some show ?thesis by blast
      next
        case False
        with m e Some side have "(start, e) \<in> set (get_all_jumps_for_player g (get_current_player g))"
          by (auto simp: legal_moves_at_def Let_def)
        then have "\<exists>q. e \<in> set (get_moves q (board g) start)"
          unfolding get_all_jumps_for_player_def all_jumps_loop_set by blast
        with po Some show ?thesis by blast
      qed
    qed
  qed
qed

lemma legal_move_parity:
  assumes l: "get_legal_moves_for_piece g start = Inr moves" and e: "end \<in> set moves"
    and wf: "wf_board (board g)" and od: "odd_squares (board g)"
  shows "(fst start + snd start) mod 2 = 1" and "(fst end + snd end) mod 2 = 1"
    and "\<bar>fst start - fst end\<bar> = 2 \<Longrightarrow>
         ((fst start + fst end) div 2 + (snd start + snd end) div 2) mod 2 = 1"
proof -
  from legal_moves_generated_any[OF l e] obtain p q where
    p: "get_piece_at g start = Inr (Some p)" and g: "end \<in> set (get_moves q (board g) start)"
    by blast
  show sp: "(fst start + snd start) mod 2 = 1" by (rule get_piece_at_parity[OF p wf od])
  from get_moves_cases[OF g] obtain dr dc where d: "\<bar>dr\<bar> = 1" "\<bar>dc\<bar> = 1"
    and sh: "end = (fst start + dr, snd start + dc) \<or> end = (fst start + 2 * dr, snd start + 2 * dc)"
    by blast
  have dd: "(dr + dc) mod 2 = 0" using d by presburger
  show "(fst end + snd end) mod 2 = 1"
  proof -
    from sh have "fst end + snd end = fst start + snd start + (dr + dc)
        \<or> fst end + snd end = fst start + snd start + 2 * (dr + dc)"
      by auto
    then show ?thesis using sp dd by presburger
  qed
  show "((fst start + fst end) div 2 + (snd start + snd end) div 2) mod 2 = 1"
    if j: "\<bar>fst start - fst end\<bar> = 2"
  proof -
    from sh j d have e2: "fst end = fst start + 2 * dr" "snd end = snd start + 2 * dc" by auto
    have "(fst start + fst end) div 2 = fst start + dr" "(snd start + snd end) div 2 = snd start + dc"
      unfolding e2 by simp_all
    then have "(fst start + fst end) div 2 + (snd start + snd end) div 2
        = fst start + snd start + (dr + dc)" by simp
    then show ?thesis using sp dd by presburger
  qed
qed

lemma undo_last_move_odd:
  assumes u: "undo_last_move now g = Inr g'" and wf: "wf_board (board g)"
    and od: "odd_squares (board g)"
    and h: "move_history g \<noteq> [] \<Longrightarrow>
       (fst (start_coords (last (move_history g))) + snd (start_coords (last (move_history g)))) mod 2 = 1
       \<and> (is_jump (last (move_history g)) \<longrightarrow>
            ((fst (start_coords (last (move_history g))) + fst (end_coords (last (move_history g)))) div 2
             + (snd (start_coords (last (move_history g))) + snd (end_coords (last (move_history g)))) div 2)
            mod 2 = 1)"
  shows "odd_squares (board g')"
proof (cases "move_history g = []")
  case True
  with u od show ?thesis by (simp add: undo_last_move_def)
next
  case False
  let ?m = "last (move_history g)"
  let ?mid = "((fst (start_coords ?m) + fst (end_coords ?m)) div 2,
               (snd (start_coords ?m) + snd (end_coords ?m)) div 2)"
  from h[OF False] have ps: "(fst (start_coords ?m) + snd (start_coords ?m)) mod 2 = 1"
    and pm: "is_jump ?m \<Longrightarrow> (fst ?mid + snd ?mid) mod 2 = 1"
    by simp_all
  define R where "R = (\<lambda>(a :: game) (b :: game).
     wf_board (board a) \<and> odd_squares (board a) \<longrightarrow> wf_board (board b) \<and> odd_squares (board b))"
  have qrefl: "R a a" for a by (simp add: R_def)
  have trans: "R a b \<Longrightarrow> R b c \<Longrightarrow> R a c" for a b c by (simp add: R_def)
  have sp: "set_piece_at a c v = Inr b \<Longrightarrow> v \<noteq> None \<longrightarrow> (fst c + snd c) mod 2 = 1 \<Longrightarrow> R a b"
    for a b c v
    using set_piece_at_odd_squares[of a c v b] set_piece_at_wf_board[of a c v b]
    by (simp add: R_def)
  have pop: "pop_captured a s = Inr b \<Longrightarrow> R a b" for a b s
    by (auto simp: pop_captured_def R_def split: if_splits)
  let ?g0 = "g\<lparr>move_history := butlast (move_history g)\<rparr>"
  from u False obtain g1 g2 where
    s1: "undo_restore_piece ?g0 ?m = Inr g1"
    and s2: "undo_restore_captured g1 ?m = Inr g2"
    and g': "g' = undo_bookkeeping now g2 ?m"
    by (auto simp: undo_last_move_def Let_def bindE_eq_Inr)
  have q1: "R ?g0 g1"
  proof -
    from s1 obtain a where a: "set_piece_at ?g0 (start_coords ?m) (Some (piece_moved ?m)) = Inr a"
      and b: "(if is_promotion ?m
         then bindE (set_piece_at a (start_coords ?m) (Some (Man (is_player1 (piece_moved ?m)))))
                (\<lambda>g2. set_piece_at g2 (end_coords ?m) None)
         else set_piece_at a (end_coords ?m) None) = Inr g1"
      by (auto simp: undo_restore_piece_def bindE_eq_Inr)
    have "R a g1"
    proof (cases "is_promotion ?m")
      case True
      with b obtain c where c1: "set_piece_at a (start_coords ?m) (Some (Man (is_player1 (piece_moved ?m)))) = Inr c"
        and c2: "set_piece_at c (end_coords ?m) None = Inr g1"
        by (auto simp: bindE_eq_Inr)
      have "R a c" using sp[OF c1] ps by simp
      moreover have "R c g1" using sp[OF c2] by simp
      ultimately show ?thesis using trans by blast
    next
      case False
      with b have "set_piece_at a (end_coords ?m) None = Inr g1" by simp
      then show ?thesis using sp by simp
    qed
    moreover have "R ?g0 a" using sp[OF a] ps by simp
    ultimately show ?thesis using trans by blast
  qed
  have q2: "R g1 g2"
  proof (cases "piece_captured ?m")
    case None
    with s2 show ?thesis using qrefl by (simp add: undo_restore_captured_def)
  next
    case (Some cp)
    with s2 obtain a where a: "(if is_jump ?m then set_piece_at g1 ?mid (Some cp) else Inr g1) = Inr a"
      and b: "pop_captured a (is_player1 (piece_moved ?m)) = Inr g2"
      by (auto simp: undo_restore_captured_def bindE_eq_Inr)
    have "R g1 a"
    proof (cases "is_jump ?m")
      case True
      with a have "set_piece_at g1 ?mid (Some cp) = Inr a" by simp
      then show ?thesis using sp pm[OF True] by blast
    next
      case False
      with a show ?thesis using qrefl by simp
    qed
    then show ?thesis using pop[OF b] trans by blast
  qed
  have "R ?g0 g2" using q1 q2 trans by blast
  then have "odd_squares (board g2)" using wf od by (simp add: R_def)
  moreover have "board g' = board g2" by (simp add: g' undo_bookkeeping_def Let_def)
  ultimately show ?thesis by simp
qed

lemma new_game_invariant:
  "wf_game (new_game now)" "odd_squares (board (new_game now))" "move_history (new_game now) = []"
proof -
  have b: "board (new_game now) = place_pieces empty_board" by (simp add: new_game_def)
  have w: "wf_board (place_pieces empty_board)" by code_simp
  show "wf_game (new_game now)" using w by (simp add: wf_game_def b) (simp add: new_game_def)
  have "list_all (\<lambda>sq. cell (place_pieces empty_board) (fst sq) (snd sq) \<noteq> None
      \<longrightarrow> (fst sq + snd sq) mod 2 = 1) iterate_squares"
    by code_simp
  then have "\<forall>sq. in_bounds (fst sq) (snd sq) \<longrightarrow>
      cell (place_pieces empty_board) (fst sq) (snd sq) \<noteq> None \<longrightarrow> (fst sq + snd sq) mod 2 = 1"
    unfolding list_all_iff using set_iterate_squares by blast
  then show "odd_squares (board (new_game now))" unfolding b odd_squares_def by auto
  show "move_history (new_game now) = []" by (simp add: new_game_def)
qed

section \<open>The invariant of reachable states\<close>

lemma make_move_True:
  assumes mm: "make_move now1 now2 g start end = Inr (True, g')"
  shows "\<exists>p el m g1. execute_board_move g p start end el = Inr (m, g1)
     \<and> g' = update_game_after_move now2 g1 m"
proof -
  from mm obtain po where po: "get_piece_at g start = Inr po"
    unfolding make_move_def by (auto simp: bindE_eq_Inr)
  show ?thesis
  proof (cases po)
    case None
    with mm po show ?thesis by (simp add: make_move_def)
  next
    case (Some piece)
    show ?thesis
    proof (cases "is_player1 piece \<noteq> player_is_player1 (get_current_player g)")
      case True
      with mm po Some show ?thesis by (simp add: make_move_def)
    next
      case False
      with mm po Some show ?thesis
        by (auto simp: make_move_def Let_def bindE_eq_Inr)
    qed
  qed
qed

lemma reachable_invariant:
  assumes "reachable g"
  shows "wf_game g \<and> odd_squares (board g)
    \<and> (\<forall>m \<in> set (move_history g).
         (fst (start_coords m) + snd (start_coords m)) mod 2 = 1
         \<and> (is_jump m \<longrightarrow>
              ((fst (start_coords m) + fst (end_coords m)) div 2
               + (snd (start_coords m) + snd (end_coords m)) div 2) mod 2 = 1))"
  using assms
proof (induction rule: reachable.induct)
  case (init now)
  show ?case using new_game_invariant[of now] by simp
next
  case (move g start moves "end" now1 now2 ok g')
  then have wf: "wf_game g" and od: "odd_squares (board g)"
    and hist: "\<forall>m \<in> set (move_history g).
         (fst (start_coords m) + snd (start_coords m)) mod 2 = 1
         \<and> (is_jump m \<longrightarrow>
              ((fst (start_coords m) + fst (end_coords m)) div 2
               + (snd (start_coords m) + snd (end_coords m)) div 2) mod 2 = 1)"
    by simp_all
  have wfb: "wf_board (board g)" using wf by (simp add: wf_game_def)
  note mm = \<open>make_move now1 now2 g start end = Inr (ok, g')\<close>
  note par = legal_move_parity[OF move.hyps(2) move.hyps(3) wfb od]
  show ?case
  proof (cases ok)
    case False
    with make_move_any[OF mm] have "g' = g" by simp
    then show ?thesis using wf od hist by simp
  next
    case True
    have mmT: "make_move now1 now2 g start end = Inr (True, g')" using mm True by simp
    from make_move_True[OF mmT] obtain p el m g1 where
      ex: "execute_board_move g p start end el = Inr (m, g1)"
      and g': "g' = update_game_after_move now2 g1 m"
      by blast
    have w': "wf_game g'" by (rule make_move_wf_game[OF mm wf])
    have o': "odd_squares (board g')"
      using execute_board_move_odd[OF ex wfb od par(2)] by (simp add: g')
    have h1: "move_history g1 = move_history g" using execute_board_move_any[OF ex] by simp
    have co: "start_coords m = start" "end_coords m = end"
      using execute_board_move_coords[OF ex] by simp_all
    have mo: "(fst (start_coords m) + snd (start_coords m)) mod 2 = 1
         \<and> (is_jump m \<longrightarrow>
              ((fst (start_coords m) + fst (end_coords m)) div 2
               + (snd (start_coords m) + snd (end_coords m)) div 2) mod 2 = 1)"
      using par(1) par(3) by (simp add: co is_jump_def)
    have "move_history g' = move_history g @ [m]" by (simp add: g' h1)
    then show ?thesis using w' o' hist mo by simp
  qed
next
  case (undo g now g')
  then have wf: "wf_game g" and od: "odd_squares (board g)"
    and hist: "\<forall>m \<in> set (move_history g).
         (fst (start_coords m) + snd (start_coords m)) mod 2 = 1
         \<and> (is_jump m \<longrightarrow>
              ((fst (start_coords m) + fst (end_coords m)) div 2
               + (snd (start_coords m) + snd (end_coords m)) div 2) mod 2 = 1)"
    by simp_all
  have wfb: "wf_board (board g)" using wf by (simp add: wf_game_def)
  note u = \<open>undo_last_move now g = Inr g'\<close>
  have w': "wf_game g'" by (rule undo_last_move_wf_game[OF u wf])
  have o': "odd_squares (board g')"
  proof (rule undo_last_move_odd[OF u wfb od])
    assume "move_history g \<noteq> []"
    then have "last (move_history g) \<in> set (move_history g)" by simp
    with hist show "(fst (start_coords (last (move_history g))) + snd (start_coords (last (move_history g)))) mod 2 = 1
       \<and> (is_jump (last (move_history g)) \<longrightarrow>
            ((fst (start_coords (last (move_history g))) + fst (end_coords (last (move_history g)))) div 2
             + (snd (start_coords (last (move_history g))) + snd (end_coords (last (move_history g)))) div 2)
            mod 2 = 1)"
      by blast
  qed
  have "set (move_history g') \<subseteq> set (move_history g)"
  proof (cases "move_history g = []")
    case True
    with undo_last_move_any[OF u] show ?thesis by simp
  next
    case False
    with undo_last_move_any[OF u] obtain x where "g' = update_game_status x"
      "move_history x = butlast (move_history g)" by blast
    then show ?thesis by (auto dest: in_set_butlastD)
  qed
  then show ?case using w' o' hist by blast
qed

lemma length_filter_mono:
  "(\<And>x. x \<in> set xs \<Longrightarrow> P x \<Longrightarrow> Q x) \<Longrightarrow> length (filter P xs) \<le> length (filter Q xs)"
  by (induction xs) auto

text \<open>
  Claim C9. In every state of a game (the opening position, and what \<open>make_move\<close> with a
  legal move and \<open>undo_last_move\<close> return from a state of a game), every square of the
  board that holds a piece has an odd sum of row and column, and at most 32 squares hold a
  piece.
\<close>

theorem pieces_on_odd_squares:
  assumes "reachable g"
  shows "wf_game g
    \<and> (\<forall>sq p. in_bounds (fst sq) (snd sq) \<and> get_piece_at g sq = Inr (Some p)
          \<longrightarrow> (fst sq + snd sq) mod 2 = 1)
    \<and> length (filter (\<lambda>sq. get_piece_at g sq \<noteq> Inr None) iterate_squares) \<le> 32"
proof -
  from reachable_invariant[OF assms] have wf: "wf_game g" and od: "odd_squares (board g)"
    by simp_all
  have wfb: "wf_board (board g)" using wf by (simp add: wf_game_def)
  have a: "\<forall>sq p. in_bounds (fst sq) (snd sq) \<and> get_piece_at g sq = Inr (Some p)
          \<longrightarrow> (fst sq + snd sq) mod 2 = 1"
    using get_piece_at_parity[OF _ wfb od] by blast
  have "length (filter (\<lambda>sq. get_piece_at g sq \<noteq> Inr None) iterate_squares)
      \<le> length (filter (\<lambda>sq. (fst sq + snd sq) mod 2 = 1) iterate_squares)"
  proof (rule length_filter_mono)
    fix sq assume sq: "sq \<in> set iterate_squares" and occ: "get_piece_at g sq \<noteq> Inr None"
    have ib: "in_bounds (fst sq) (snd sq)" using sq by (simp add: set_iterate_squares)
    from get_piece_at_cell[OF wfb ib] occ obtain p where "get_piece_at g sq = Inr (Some p)"
      by (cases "cell (board g) (fst sq) (snd sq)") auto
    then show "(fst sq + snd sq) mod 2 = 1" using a ib by blast
  qed
  also have "length (filter (\<lambda>sq. (fst sq + snd sq) mod 2 = 1) iterate_squares) = 32"
    by code_simp
  finally have b: "length (filter (\<lambda>sq. get_piece_at g sq \<noteq> Inr None) iterate_squares) \<le> 32" .
  show ?thesis using wf a b by blast
qed

theorem pieces_on_odd_squares_witness:
  "reachable (new_game 0)
   \<and> get_piece_at (new_game 0) (5, 0) = Inr (Some (Man True)) \<and> (5 + 0) mod 2 = (1 :: int)
   \<and> length (filter (\<lambda>sq. get_piece_at (new_game 0) sq \<noteq> Inr None) iterate_squares) = 24
   \<and> (\<exists>g. make_move 1 2 (new_game 0) (5, 0) (4, 1) = Inr (True, g) \<and> reachable g
          \<and> length (filter (\<lambda>sq. get_piece_at g sq \<noteq> Inr None) iterate_squares) \<le> 32)"
proof -
  have r0: "reachable (new_game 0)" by (rule reachable.init)
  have p: "get_piece_at (new_game 0) (5, 0) = Inr (Some (Man True))" by code_simp
  have n: "length (filter (\<lambda>sq. get_piece_at (new_game 0) sq \<noteq> Inr None) iterate_squares) = 24"
    by code_simp
  have l: "get_legal_moves_for_piece (new_game 0) (5, 0) = Inr [(4, 1)]" by code_simp
  let ?g = "snd (projr (make_move 1 2 (new_game 0) (5, 0) (4, 1)))"
  have m: "make_move 1 2 (new_game 0) (5, 0) (4, 1) = Inr (True, ?g)" by code_simp
  have r1: "reachable ?g" by (rule reachable.move[OF r0 l _ m]) simp
  from pieces_on_odd_squares[OF r0] pieces_on_odd_squares[OF r1]
  show ?thesis using r0 p n m r1 by auto
qed

section \<open>A jump over an empty square\<close>

text \<open>
  Claim C10. When the piece on the start square belongs to the side to move, the end
  square is two rows away and the square halfway between them is empty, \<open>make_move\<close>
  executes the move and returns True: the start square is empty afterwards, the end square
  holds the piece (a king of its owner when the move promotes), the halfway square is still
  empty, every other square of the board holds what it held, and the turn has passed to the
  other side. Neither captured list changes, and the move appended to the history has no
  captured piece although \<open>is_jump\<close> holds for it. Nothing rejects the submission.
\<close>

theorem jump_over_empty_midpoint:
  assumes wf: "wf_game g" and s: "in_bounds (fst start) (snd start)"
    and e: "in_bounds (fst end) (snd end)"
    and p: "get_piece_at g start = Inr (Some piece)"
    and side: "is_player1 piece = player_is_player1 (get_current_player g)"
    and dist: "\<bar>fst start - fst end\<bar> = 2"
    and mid: "get_piece_at g ((fst start + fst end) div 2, (snd start + snd end) div 2) = Inr None"
  shows "\<exists>g' m. make_move now1 now2 g start end = Inr (True, g')
     \<and> red_captured g' = red_captured g \<and> black_captured g' = black_captured g
     \<and> move_history g' = move_history g @ [m]
     \<and> piece_moved m = piece \<and> start_coords m = start \<and> end_coords m = end
     \<and> piece_captured m = None \<and> is_jump m
     \<and> is_promotion m =
         (case piece of Man p1 \<Rightarrow> (p1 \<and> fst end = 0) \<or> (\<not> p1 \<and> fst end = 7) | King p1 \<Rightarrow> False)
     \<and> get_piece_at g' start = Inr None
     \<and> get_piece_at g' end = Inr (Some (if is_promotion m then King (is_player1 piece) else piece))
     \<and> get_piece_at g' ((fst start + fst end) div 2, (snd start + snd end) div 2) = Inr None
     \<and> (\<forall>sq. in_bounds (fst sq) (snd sq) \<and> sq \<noteq> start \<and> sq \<noteq> end
           \<longrightarrow> get_piece_at g' sq = get_piece_at g sq)
     \<and> current_player_index g' = 1 - current_player_index g"
proof -
  have wfb: "wf_board (board g)" using wf by (simp add: wf_game_def)
  let ?mr = "(fst start + fst end) div 2" and ?mc = "(snd start + snd end) div 2"
  have mb: "in_bounds ?mr ?mc" using s e by (rule in_bounds_mid)
  then have c: "cell (board g) ?mr ?mc = None"
    using mid get_piece_at_wf[OF wfb, of ?mr ?mc] by simp
  have ne: "start \<noteq> end" using dist by auto
  have ms: "(?mr, ?mc) \<noteq> start" and me: "(?mr, ?mc) \<noteq> end"
    using dist by (cases start; cases "end"; auto)+
  from make_move_executes[OF wf s e p side, of now1 now2]
  obtain m g1 where
    ex: "execute_board_move g piece start end (now1 - turn_start_time g) = Inr (m, g1)"
    and mm: "make_move now1 now2 g start end = Inr (True, update_game_after_move now2 g1 m)"
    by blast
  let ?g' = "update_game_after_move now2 g1 m"
  note f = execute_board_move_result[OF wfb s e ex]
  note ba = board_after_execute[OF wfb s e ex]
  have wfb': "wf_board (board ?g')" using ba(1)[OF mb] by simp
  have rd: "\<And>sq. in_bounds (fst sq) (snd sq) \<Longrightarrow>
      get_piece_at ?g' sq = Inr (cell (board g1) (fst sq) (snd sq))"
    using get_piece_at_cell[OF wfb'] by simp
  have pc: "piece_captured m = None" using f(4) dist c by simp
  have j: "is_jump m" using f(2) f(3) dist by (simp add: is_jump_def)
  have rc: "red_captured ?g' = red_captured g" using f(7) pc by simp
  have bc: "black_captured ?g' = black_captured g" using f(8) pc by simp
  have h: "move_history ?g' = move_history g @ [m]" using f(9) by simp
  have cs: "get_piece_at ?g' start = Inr None" using rd[OF s] ba(2)[OF s] by simp
  have ce: "get_piece_at ?g' end = Inr (Some (if is_promotion m then King (is_player1 piece) else piece))"
    using rd[OF e] ba(2)[OF e] ne by simp
  have cm: "get_piece_at ?g' (?mr, ?mc) = Inr None"
    using rd[of "(?mr, ?mc)"] mb ba(2)[OF mb] ms me dist by simp
  have fr: "\<forall>sq. in_bounds (fst sq) (snd sq) \<and> sq \<noteq> start \<and> sq \<noteq> end
           \<longrightarrow> get_piece_at ?g' sq = get_piece_at g sq"
  proof (intro allI impI)
    fix sq :: coords
    assume a: "in_bounds (fst sq) (snd sq) \<and> sq \<noteq> start \<and> sq \<noteq> end"
    then have ib: "in_bounds (fst sq) (snd sq)" by simp
    have "cell (board g1) (fst sq) (snd sq) = cell (board g) (fst sq) (snd sq)"
    proof (cases "sq = (?mr, ?mc)")
      case True
      then show ?thesis using ba(2)[OF ib] a c dist by simp
    next
      case False
      then show ?thesis using ba(2)[OF ib] a by simp
    qed
    then show "get_piece_at ?g' sq = get_piece_at g sq"
      using rd[OF ib] get_piece_at_cell[OF wfb ib] by simp
  qed
  have ci: "current_player_index ?g' = 1 - current_player_index g" using f(10) by simp
  show ?thesis
    apply (rule exI[of _ ?g'], rule exI[of _ m])
    using mm rc bc h f(1) f(2) f(3) pc j f(5) cs ce cm fr ci by blast
qed

theorem jump_over_empty_midpoint_witness:
  "wf_game (new_game 0) \<and> in_bounds 5 0 \<and> in_bounds 3 2
   \<and> get_piece_at (new_game 0) (5, 0) = Inr (Some (Man True))
   \<and> is_player1 (Man True) = player_is_player1 (get_current_player (new_game 0))
   \<and> get_piece_at (new_game 0) (4, 1) = Inr None
   \<and> (\<exists>g' m. make_move 1 2 (new_game 0) (5, 0) (3, 2) = Inr (True, g')
         \<and> red_captured g' = [] \<and> black_captured g' = [] \<and> move_history g' = [m]
         \<and> piece_captured m = None \<and> is_jump m \<and> \<not> is_promotion m
         \<and> get_piece_at g' (5, 0) = Inr None
         \<and> get_piece_at g' (3, 2) = Inr (Some (Man True))
         \<and> get_piece_at g' (4, 1) = Inr None
         \<and> get_piece_at g' (5, 2) = Inr (Some (Man True)))"
proof -
  have wf: "wf_game (new_game 0)" by code_simp
  have s: "in_bounds (fst (5, 0)) (snd (5, 0))" by code_simp
  have e: "in_bounds (fst (3, 2)) (snd (3, 2))" by code_simp
  have p: "get_piece_at (new_game 0) (5, 0) = Inr (Some (Man True))" by code_simp
  have side: "is_player1 (Man True) = player_is_player1 (get_current_player (new_game 0))"
    by code_simp
  have dist: "\<bar>fst (5, 0) - fst (3, 2)\<bar> = (2::int)" by simp
  have mid: "get_piece_at (new_game 0) ((fst (5, 0) + fst (3, 2)) div 2, (snd (5, 0) + snd (3, 2)) div 2) = Inr None"
    by code_simp
  have mid': "get_piece_at (new_game 0) (4, 1) = Inr None" by code_simp
  have o: "get_piece_at (new_game 0) (5, 2) = Inr (Some (Man True))" by code_simp
  have o': "in_bounds (fst (5, 2)) (snd (5, 2))" by code_simp
  have f: "red_captured (new_game 0) = []" "black_captured (new_game 0) = []"
    "move_history (new_game 0) = []" by code_simp+
  from jump_over_empty_midpoint[OF wf s e p side dist mid, of 1 2]
  obtain g' m where g: "make_move 1 2 (new_game 0) (5, 0) (3, 2) = Inr (True, g')"
    "red_captured g' = red_captured (new_game 0)" "black_captured g' = black_captured (new_game 0)"
    "move_history g' = move_history (new_game 0) @ [m]"
    "piece_captured m = None" "is_jump m"
    "is_promotion m =
       (case Man True of Man p1 \<Rightarrow> (p1 \<and> fst ((3, 2) :: coords) = 0) \<or> (\<not> p1 \<and> fst ((3, 2) :: coords) = 7)
        | King p1 \<Rightarrow> False)"
    "get_piece_at g' (5, 0) = Inr None"
    "get_piece_at g' (3, 2) = Inr (Some (if is_promotion m then King (is_player1 (Man True)) else Man True))"
    "get_piece_at g' ((fst ((5, 0) :: coords) + fst ((3, 2) :: coords)) div 2,
        (snd ((5, 0) :: coords) + snd ((3, 2) :: coords)) div 2) = Inr None"
    "\<forall>sq. in_bounds (fst sq) (snd sq) \<and> sq \<noteq> (5, 0) \<and> sq \<noteq> (3, 2)
        \<longrightarrow> get_piece_at g' sq = get_piece_at (new_game 0) sq"
    by blast
  have np: "\<not> is_promotion m" using g(7) by simp
  have c2: "get_piece_at g' (5, 2) = Inr (Some (Man True))" using g(11) o o' by auto
  have c3: "get_piece_at g' (4, 1) = Inr None" using g(10) by simp
  have c4: "get_piece_at g' (3, 2) = Inr (Some (Man True))" using g(9) np by simp
  show ?thesis using wf s e p side mid' f g(1-6) g(8) np c2 c3 c4 by auto
qed

end
